theory Spec2Isabelle
  imports Main "HOL-Library.Word"
begin

section \<open>The circular byte buffer of sgs\_buffer.c\<close>

text \<open>
  The buffer of \<^verbatim>\<open>src/client/c/sgs_buffer.c\<close>, with the struct of
  \<^verbatim>\<open>impl/sgs_buffer_impl.h\<close>. \<^verbatim>\<open>size_t\<close> is the 64-bit unsigned integer of an
  LP64 platform, so \<open>+\<close> and \<open>-\<close> wrap as in C; \<^verbatim>\<open>uint8_t\<close> is an 8-bit word. The
  backing array and the caller's memory are byte lists, a pointer into one of them is
  the list with an offset.

  What C leaves undefined is a value of the model: a copy that leaves its array and a
  remainder by zero are faults, and every function that can meet one returns
  \<open>fault + result\<close>.
\<close>

type_synonym size_t = "64 word"
type_synonym uint8_t = "8 word"

record sgs_buffer =
  capacity :: size_t  \<comment> \<open>total amount of memory allocated to buf\<close>
  position :: size_t  \<comment> \<open>current position of the start of the data\<close>
  size :: size_t  \<comment> \<open>number of bytes currently stored\<close>
  buf :: "uint8_t list"  \<comment> \<open>the actual data\<close>

datatype fault = OutOfBounds | DivByZero

datatype errno = ENOBUFS

definition fbind :: "fault + 'a \<Rightarrow> ('a \<Rightarrow> fault + 'b) \<Rightarrow> fault + 'b" where
  "fbind m f = (case m of Inl e \<Rightarrow> Inl e | Inr x \<Rightarrow> f x)"

text \<open>
  \<^verbatim>\<open>memcpy(dst + doff, src + soff, n)\<close>: the \<open>n\<close> bytes of \<open>src\<close> from \<open>soff\<close> replace
  those of \<open>dst\<close> from \<open>doff\<close>. Both ranges must lie in their arrays.
\<close>

definition memcpy :: "uint8_t list \<Rightarrow> nat \<Rightarrow> uint8_t list \<Rightarrow> nat \<Rightarrow> nat \<Rightarrow> fault + uint8_t list" where
  "memcpy dst doff src soff n =
     (if doff + n \<le> length dst \<and> soff + n \<le> length src
      then Inr (take doff dst @ take n (drop soff src) @ drop (doff + n) dst)
      else Inl OutOfBounds)"

text \<open>The remainder \<^verbatim>\<open>a % b\<close> on \<^verbatim>\<open>size_t\<close>; C leaves \<^verbatim>\<open>a % 0\<close> undefined.\<close>

definition size_mod :: "size_t \<Rightarrow> size_t \<Rightarrow> fault + size_t" where
  "size_mod a b = (if b = 0 then Inl DivByZero else Inr (a mod b))"

text \<open>The conversion of a \<^verbatim>\<open>size_t\<close> to the 32-bit \<^verbatim>\<open>int\<close> a function returns.\<close>

definition int_of_size :: "size_t \<Rightarrow> int" where
  "int_of_size n = sint (ucast n :: 32 word)"

subsection \<open>Internal functions\<close>

definition tailpos :: "sgs_buffer \<Rightarrow> fault + size_t" where
  "tailpos buffer = size_mod (position buffer + size buffer) (capacity buffer)"

definition readable_len :: "sgs_buffer \<Rightarrow> fault + size_t" where
  "readable_len buffer =
     fbind (tailpos buffer) (\<lambda>t.
       if t \<ge> position buffer
       then Inr (size buffer)
       else Inr (capacity buffer - position buffer))"

definition writable_len :: "sgs_buffer \<Rightarrow> fault + size_t" where
  "writable_len buffer =
     fbind (tailpos buffer) (\<lambda>mytailpos.
       if mytailpos \<ge> position buffer
       then Inr (capacity buffer - mytailpos)
       else Inr (position buffer - mytailpos))"

subsection \<open>External functions\<close>

definition sgs_buffer_capacity :: "sgs_buffer \<Rightarrow> size_t" where
  "sgs_buffer_capacity buffer = capacity buffer"

text \<open>
  \<^verbatim>\<open>sgs_buffer_create\<close> calls \<^verbatim>\<open>malloc\<close> twice. What the allocator answers is an
  argument of the model: \<open>struct_alloc\<close> tells whether the struct was obtained, and
  \<open>buf_alloc\<close> is the block obtained for \<^verbatim>\<open>malloc(capacity)\<close>, with whatever bytes it
  holds, or \<open>None\<close> for \<^verbatim>\<open>NULL\<close>.
\<close>

definition sgs_buffer_create :: "bool \<Rightarrow> uint8_t list option \<Rightarrow> size_t \<Rightarrow> sgs_buffer option" where
  "sgs_buffer_create struct_alloc buf_alloc capacity' =
     (if \<not> struct_alloc then None
      else case buf_alloc of
        None \<Rightarrow> None
      | Some mem \<Rightarrow> Some \<lparr>capacity = capacity', position = 0, size = 0, buf = mem\<rparr>)"

definition sgs_buffer_empty :: "sgs_buffer \<Rightarrow> sgs_buffer" where
  "sgs_buffer_empty buffer = buffer\<lparr>position := 0, size := 0\<rparr>"

text \<open>
  \<^verbatim>\<open>sgs_buffer_peek(buffer, data, len)\<close> returns the \<^verbatim>\<open>int\<close> of the C function and
  the caller's memory \<open>data\<close> after the call.
\<close>

definition sgs_buffer_peek :: "sgs_buffer \<Rightarrow> uint8_t list \<Rightarrow> size_t \<Rightarrow> fault + int \<times> uint8_t list" where
  "sgs_buffer_peek buffer data len =
     fbind (readable_len buffer) (\<lambda>readable.
       if len > size buffer then Inr (- 1, data)
       else if readable \<ge> len then
         fbind (memcpy data 0 (buf buffer) (unat (position buffer)) (unat len)) (\<lambda>data'.
           Inr (0, data'))
       else
         fbind (memcpy data 0 (buf buffer) (unat (position buffer)) (unat readable)) (\<lambda>data'.
         fbind (memcpy data' (unat readable) (buf buffer) 0 (unat (len - readable))) (\<lambda>data''.
           Inr (0, data''))))"

definition sgs_buffer_read :: "sgs_buffer \<Rightarrow> uint8_t list \<Rightarrow> size_t \<Rightarrow> fault + int \<times> uint8_t list \<times> sgs_buffer" where
  "sgs_buffer_read buffer data len =
     fbind (sgs_buffer_peek buffer data len) (\<lambda>(r, data').
       if r = - 1 then Inr (- 1, data', buffer)
       else
         fbind (size_mod (position buffer + len) (capacity buffer)) (\<lambda>position'.
           Inr (0, data', buffer\<lparr>position := position', size := size buffer - len\<rparr>)))"

definition sgs_buffer_remaining_capacity :: "sgs_buffer \<Rightarrow> size_t" where
  "sgs_buffer_remaining_capacity buffer = capacity buffer - size buffer"

definition sgs_buffer_size :: "sgs_buffer \<Rightarrow> size_t" where
  "sgs_buffer_size buffer = size buffer"

text \<open>
  \<^verbatim>\<open>sgs_buffer_write(buffer, data, len)\<close> returns the \<^verbatim>\<open>int\<close>, the value it stores in
  \<^verbatim>\<open>errno\<close> if it stores one, and the buffer after the call.
\<close>

definition sgs_buffer_write :: "sgs_buffer \<Rightarrow> uint8_t list \<Rightarrow> size_t \<Rightarrow> fault + int \<times> errno option \<times> sgs_buffer" where
  "sgs_buffer_write buffer data len =
     fbind (writable_len buffer) (\<lambda>writable.
       if len > sgs_buffer_remaining_capacity buffer then Inr (- 1, Some ENOBUFS, buffer)
       else
         fbind (tailpos buffer) (\<lambda>t.
         fbind
           (if writable \<ge> len then memcpy (buf buffer) (unat t) data 0 (unat len)
            else
              fbind (memcpy (buf buffer) (unat t) data 0 (unat writable)) (\<lambda>buf'.
                memcpy buf' 0 data (unat writable) (unat (len - writable))))
           (\<lambda>buf'. Inr (0, None, buffer\<lparr>size := size buffer + len, buf := buf'\<rparr>))))"

subsection \<open>The descriptor-bound functions\<close>

text \<open>
  A descriptor that is read from is the sequence of its answers: \<open>fd i n\<close> is what the
  \<open>i\<close>-th call of \<^verbatim>\<open>read\<close> on it answers when \<open>n\<close> bytes are requested, \<open>None\<close> for an
  error and \<open>Some bytes\<close> for the bytes it has ready, of which \<^verbatim>\<open>read\<close> delivers at
  most \<open>n\<close>; no byte ready is the end of the stream. A descriptor that is written to
  answers the bytes it is offered with an error or with the number it accepts.
\<close>

type_synonym read_fd = "nat \<Rightarrow> nat \<Rightarrow> uint8_t list option"
type_synonym write_fd = "nat \<Rightarrow> uint8_t list \<Rightarrow> nat option"

text \<open>
  \<^verbatim>\<open>read(fd, mem + off, n)\<close>: the \<^verbatim>\<open>ssize_t\<close> it returns, read as the \<^verbatim>\<open>size_t\<close> the
  caller stores it in (\<open>- 1\<close> is the largest \<^verbatim>\<open>size_t\<close>), and the memory afterwards.
\<close>

definition sys_read :: "(nat \<Rightarrow> uint8_t list option) \<Rightarrow> uint8_t list \<Rightarrow> nat \<Rightarrow> nat \<Rightarrow> fault + size_t \<times> uint8_t list" where
  "sys_read answer mem off n =
     (if off + n \<le> length mem
      then (case answer n of
              None \<Rightarrow> Inr (- 1, mem)
            | Some bytes \<Rightarrow>
                Inr (of_nat (length (take n bytes)),
                     take off mem @ take n bytes @ drop (off + length (take n bytes)) mem))
      else Inl OutOfBounds)"

text \<open>\<^verbatim>\<open>write(fd, mem + off, n)\<close>: the \<^verbatim>\<open>ssize_t\<close> it returns, read as a \<^verbatim>\<open>size_t\<close>.\<close>

definition sys_write :: "(uint8_t list \<Rightarrow> nat option) \<Rightarrow> uint8_t list \<Rightarrow> nat \<Rightarrow> nat \<Rightarrow> fault + size_t" where
  "sys_write answer mem off n =
     (if off + n \<le> length mem
      then (case answer (take n (drop off mem)) of
              None \<Rightarrow> Inr (- 1)
            | Some k \<Rightarrow> Inr (of_nat (min k n)))
      else Inl OutOfBounds)"

text \<open>
  The \<^verbatim>\<open>while\<close> loop of \<^verbatim>\<open>sgs_buffer_read_from_fd\<close>, entered at its test with the
  values of its variables; \<open>i\<close> counts the calls of \<^verbatim>\<open>read\<close> made so far. The variable
  \<^verbatim>\<open>total\<close> is written \<open>total'\<close>, since \<open>total\<close> is a constant of HOL. The result is \<open>None\<close>
  when the loop never leaves.
\<close>

partial_function (option) read_from_fd_loop ::
  "read_fd \<Rightarrow> nat \<Rightarrow> sgs_buffer \<Rightarrow> size_t \<Rightarrow> size_t \<Rightarrow> (fault + int \<times> sgs_buffer) option" where
  "read_from_fd_loop fd i buffer total' writable =
     (if writable > 0 then
        (case tailpos buffer of
           Inl e \<Rightarrow> Some (Inl e)
         | Inr t \<Rightarrow>
            (case sys_read (fd i) (buf buffer) (unat t) (unat writable) of
               Inl e \<Rightarrow> Some (Inl e)
             | Inr (result, buf') \<Rightarrow>
                 if result = - 1 then Some (Inr (- 1, buffer\<lparr>buf := buf'\<rparr>))
                 else if result = 0 then Some (Inr (0, buffer\<lparr>buf := buf'\<rparr>))
                 else
                   let total'' = total' + result;
                       buffer' = buffer\<lparr>size := size buffer + result, buf := buf'\<rparr>
                   in if result \<noteq> writable then Some (Inr (int_of_size total'', buffer'))
                      else (case writable_len buffer' of
                              Inl e \<Rightarrow> Some (Inl e)
                            | Inr writable' \<Rightarrow>
                                read_from_fd_loop fd (Suc i) buffer' total'' writable')))
      else Some (Inr (int_of_size total', buffer)))"

definition sgs_buffer_read_from_fd :: "sgs_buffer \<Rightarrow> read_fd \<Rightarrow> (fault + int \<times> sgs_buffer) option" where
  "sgs_buffer_read_from_fd buffer fd =
     (case writable_len buffer of
        Inl e \<Rightarrow> Some (Inl e)
      | Inr writable \<Rightarrow> read_from_fd_loop fd 0 buffer 0 writable)"

partial_function (option) write_to_fd_loop ::
  "write_fd \<Rightarrow> nat \<Rightarrow> sgs_buffer \<Rightarrow> size_t \<Rightarrow> size_t \<Rightarrow> (fault + int \<times> sgs_buffer) option" where
  "write_to_fd_loop fd i buffer total' readable =
     (if readable > 0 then
        (case sys_write (fd i) (buf buffer) (unat (position buffer)) (unat readable) of
           Inl e \<Rightarrow> Some (Inl e)
         | Inr result \<Rightarrow>
             if result = - 1 then Some (Inr (- 1, buffer))
             else
               (case size_mod (position buffer + result) (capacity buffer) of
                  Inl e \<Rightarrow> Some (Inl e)
                | Inr position' \<Rightarrow>
                    let total'' = total' + result;
                        buffer' = buffer\<lparr>position := position', size := size buffer - result\<rparr>
                    in if result \<noteq> readable then Some (Inr (int_of_size total'', buffer'))
                       else (case readable_len buffer' of
                               Inl e \<Rightarrow> Some (Inl e)
                             | Inr readable' \<Rightarrow>
                                 write_to_fd_loop fd (Suc i) buffer' total'' readable')))
      else Some (Inr (int_of_size total', buffer)))"

definition sgs_buffer_write_to_fd :: "sgs_buffer \<Rightarrow> write_fd \<Rightarrow> (fault + int \<times> sgs_buffer) option" where
  "sgs_buffer_write_to_fd buffer fd =
     (case readable_len buffer of
        Inl e \<Rightarrow> Some (Inl e)
      | Inr readable \<Rightarrow> write_to_fd_loop fd 0 buffer 0 readable)"

text \<open>
  The values of \<^verbatim>\<open>buffer\<close>, \<^verbatim>\<open>total\<close> and \<^verbatim>\<open>writable\<close> at the test of that loop before
  the \<open>i\<close>-th call of \<^verbatim>\<open>read\<close>, when the loop gets that far: each earlier iteration
  has passed the three tests of the body (\<^verbatim>\<open>result\<close> is not \<open>- 1\<close>, not 0, and equals
  \<^verbatim>\<open>writable\<close>) and has gone round. It is \<open>None\<close> when the loop has left before.
\<close>

fun loop_head :: "read_fd \<Rightarrow> sgs_buffer \<Rightarrow> nat \<Rightarrow> (sgs_buffer \<times> size_t \<times> size_t) option" where
  "loop_head fd buffer 0 =
     (case writable_len buffer of
        Inl e \<Rightarrow> None
      | Inr writable \<Rightarrow> Some (buffer, 0, writable))"
| "loop_head fd buffer (Suc i) =
     (case loop_head fd buffer i of
        None \<Rightarrow> None
      | Some (buffer', total', writable) \<Rightarrow>
          if writable > 0 then
            (case tailpos buffer' of
               Inl e \<Rightarrow> None
             | Inr t \<Rightarrow>
                (case sys_read (fd i) (buf buffer') (unat t) (unat writable) of
                   Inl e \<Rightarrow> None
                 | Inr (result, buf') \<Rightarrow>
                     if result = - 1 \<or> result = 0 \<or> result \<noteq> writable then None
                     else
                       (case writable_len (buffer'\<lparr>size := size buffer' + result, buf := buf'\<rparr>) of
                          Inl e \<Rightarrow> None
                        | Inr writable' \<Rightarrow>
                            Some (buffer'\<lparr>size := size buffer' + result, buf := buf'\<rparr>,
                                  total' + result, writable'))))
          else None)"

subsection \<open>The invariants of the data model\<close>

text \<open>
  A well-formed buffer has a capacity that is not zero, storage of exactly \<open>capacity\<close>
  bytes and \<open>position < capacity\<close>. The capacity is at most \<open>2 ^ 63\<close>, since no
  allocation is larger than \<^verbatim>\<open>PTRDIFF_MAX\<close> bytes. The invariants of the data model
  add \<open>size \<le> capacity\<close>; then \<open>position + size\<close> does not wrap around.
\<close>

definition buffer_wf :: "sgs_buffer \<Rightarrow> bool" where
  "buffer_wf buffer \<longleftrightarrow>
     capacity buffer \<noteq> 0 \<and> unat (capacity buffer) \<le> 2 ^ 63 \<and>
     length (buf buffer) = unat (capacity buffer) \<and>
     position buffer < capacity buffer"

definition buffer_inv :: "sgs_buffer \<Rightarrow> bool" where
  "buffer_inv buffer \<longleftrightarrow> buffer_wf buffer \<and> size buffer \<le> capacity buffer"

subsection \<open>Auxiliary definitions of the statements\<close>

text \<open>The bytes of a string literal.\<close>

definition bytes_of :: "string \<Rightarrow> uint8_t list" where
  "bytes_of s = map of_char s"

text \<open>
  Descriptors to read from: one that has three bytes ready and then is at the end of
  the stream; one that has three bytes ready and then fails; one that delivers
  whatever is requested the first time and has a single byte ready from then on; one
  that always delivers as many bytes as are requested.
\<close>

definition three_then_eof :: read_fd where
  "three_then_eof i n = (if i = 0 then Some [10, 11, 12] else Some [])"

definition three_then_error :: read_fd where
  "three_then_error i n = (if i = 0 then Some [10, 11, 12] else None)"

definition all_then_one :: read_fd where
  "all_then_one i n = (if i = 0 then Some (replicate n 1) else Some [2])"

definition always_all :: read_fd where
  "always_all i n = Some (replicate n 0)"

section \<open>Evaluation\<close>

lemmas buffer_defs =
  sgs_buffer_create_def sgs_buffer_write_def sgs_buffer_read_def sgs_buffer_peek_def
  sgs_buffer_empty_def sgs_buffer_remaining_capacity_def sgs_buffer_size_def
  readable_len_def writable_len_def tailpos_def size_mod_def fbind_def memcpy_def

section \<open>Faults, copies and the cursor arithmetic\<close>

lemma fbind_eq_Inr: "fbind m f = Inr y \<longleftrightarrow> (\<exists>x. m = Inr x \<and> f x = Inr y)"
  by (cases m) (simp_all add: fbind_def)

lemma fbind_Inr: "fbind (Inr x) f = f x"
  by (simp add: fbind_def)

lemma fbind_Inl: "fbind (Inl e) f = Inl e"
  by (simp add: fbind_def)

lemma memcpy_nothing: "doff \<le> length dst \<Longrightarrow> soff \<le> length src \<Longrightarrow> memcpy dst doff src soff 0 = Inr dst"
  by (simp add: memcpy_def)

lemma memcpy_in_bounds:
  "doff + n \<le> length dst \<Longrightarrow> soff + n \<le> length src \<Longrightarrow>
   memcpy dst doff src soff n = Inr (take doff dst @ take n (drop soff src) @ drop (doff + n) dst)"
  by (simp add: memcpy_def)

lemma memcpy_length: "memcpy dst doff src soff n = Inr dst' \<Longrightarrow> length dst' = length dst"
  by (auto simp add: memcpy_def split: if_splits)

text \<open>
  Under the invariants the cursors are read as natural numbers without wrap-around.
  The tail is \<open>(position + size) mod capacity\<close>; on a full buffer it equals the
  position, as on an empty one, and \<^verbatim>\<open>readable_len\<close> and \<^verbatim>\<open>writable_len\<close> then take
  their first branch.
\<close>

lemma mod_wrap:
  fixes p s c :: nat
  assumes "p < c" "s \<le> c"
  shows "(p + s) mod c = (if p + s < c then p + s else p + s - c)"
  using assms by (simp add: le_mod_geq)

lemma buffer_inv_nat:
  assumes "buffer_inv b"
  shows "0 < unat (capacity b)" "unat (capacity b) \<le> 2 ^ 63"
    "length (buf b) = unat (capacity b)"
    "unat (position b) < unat (capacity b)" "unat (size b) \<le> unat (capacity b)"
    "capacity b \<noteq> 0"
  using assms by (simp_all add: buffer_inv_def buffer_wf_def word_less_nat_alt word_le_nat_alt unat_gt_0)

lemma tailpos_inv:
  assumes "buffer_inv b"
  shows "\<exists>t. tailpos b = Inr t \<and>
    unat t = (if unat (position b) + unat (size b) < unat (capacity b)
              then unat (position b) + unat (size b)
              else unat (position b) + unat (size b) - unat (capacity b))"
proof -
  note n = buffer_inv_nat[OF assms]
  have "unat (position b) + unat (size b) < 2 ^ 64" using n(2,4,5) by simp
  then have "unat (position b + size b) = unat (position b) + unat (size b)"
    by (simp add: unat_add_lem[THEN iffD1])
  then have "unat ((position b + size b) mod capacity b) =
      (unat (position b) + unat (size b)) mod unat (capacity b)"
    by (simp add: unat_mod)
  also have "\<dots> = (if unat (position b) + unat (size b) < unat (capacity b)
              then unat (position b) + unat (size b)
              else unat (position b) + unat (size b) - unat (capacity b))"
    using n(4,5) by (rule mod_wrap)
  finally show ?thesis using n(6) by (simp add: tailpos_def size_mod_def)
qed

lemma writable_len_inv:
  assumes "buffer_inv b"
  shows "\<exists>t w. tailpos b = Inr t \<and> writable_len b = Inr w \<and>
    unat t = (if unat (position b) + unat (size b) < unat (capacity b)
              then unat (position b) + unat (size b)
              else unat (position b) + unat (size b) - unat (capacity b)) \<and>
    unat w = (if unat (position b) + unat (size b) < unat (capacity b)
              then unat (capacity b) - (unat (position b) + unat (size b))
              else if unat (size b) = unat (capacity b) then unat (capacity b) - unat (position b)
              else unat (capacity b) - unat (size b))"
proof -
  note n = buffer_inv_nat[OF assms]
  from tailpos_inv[OF assms] obtain t where t: "tailpos b = Inr t"
    and ut: "unat t = (if unat (position b) + unat (size b) < unat (capacity b)
              then unat (position b) + unat (size b)
              else unat (position b) + unat (size b) - unat (capacity b))" by blast
  have tc: "unat t < unat (capacity b)" using ut n by (auto split: if_splits)
  show ?thesis
  proof (cases "position b \<le> t")
    case True
    then have w: "writable_len b = Inr (capacity b - t)" by (simp add: writable_len_def t fbind_def)
    have "unat (capacity b - t) = unat (capacity b) - unat t"
      using tc by (simp add: unat_sub word_le_nat_alt)
    moreover from True have "unat (position b) \<le> unat t" by (simp add: word_le_nat_alt)
    ultimately show ?thesis using t ut w n by (auto split: if_splits)
  next
    case False
    then have w: "writable_len b = Inr (position b - t)" by (simp add: writable_len_def t fbind_def)
    from False have lt: "unat t < unat (position b)" by (simp add: word_le_nat_alt)
    then have "unat (position b - t) = unat (position b) - unat t"
      by (simp add: unat_sub word_le_nat_alt)
    then show ?thesis using t ut w n lt by (auto split: if_splits)
  qed
qed

lemma readable_len_inv:
  assumes "buffer_inv b"
  shows "\<exists>r. readable_len b = Inr r \<and>
    unat r = (if unat (position b) + unat (size b) < unat (capacity b) then unat (size b)
              else if unat (size b) = unat (capacity b) then unat (capacity b)
              else unat (capacity b) - unat (position b))"
proof -
  note n = buffer_inv_nat[OF assms]
  from tailpos_inv[OF assms] obtain t where t: "tailpos b = Inr t"
    and ut: "unat t = (if unat (position b) + unat (size b) < unat (capacity b)
              then unat (position b) + unat (size b)
              else unat (position b) + unat (size b) - unat (capacity b))" by blast
  show ?thesis
  proof (cases "position b \<le> t")
    case True
    then have w: "readable_len b = Inr (size b)" by (simp add: readable_len_def t fbind_def)
    from True have "unat (position b) \<le> unat t" by (simp add: word_le_nat_alt)
    then show ?thesis using t ut w n by (auto split: if_splits)
  next
    case False
    then have w: "readable_len b = Inr (capacity b - position b)" by (simp add: readable_len_def t fbind_def)
    from False have lt: "unat t < unat (position b)" by (simp add: word_le_nat_alt)
    have "unat (capacity b - position b) = unat (capacity b) - unat (position b)"
      using n by (simp add: unat_sub word_le_nat_alt)
    then show ?thesis using t ut w n lt by (auto split: if_splits)
  qed
qed

lemma readable_len_returns: "capacity b \<noteq> 0 \<Longrightarrow> \<exists>r. readable_len b = Inr r"
  by (simp add: readable_len_def tailpos_def size_mod_def fbind_Inr)

lemma writable_len_returns: "capacity b \<noteq> 0 \<Longrightarrow> \<exists>w. writable_len b = Inr w"
  by (simp add: writable_len_def tailpos_def size_mod_def fbind_Inr)

lemma peek_fails: "capacity b \<noteq> 0 \<Longrightarrow> size b < len \<Longrightarrow> sgs_buffer_peek b data len = Inr (- 1, data)"
  using readable_len_returns[of b] by (auto simp add: sgs_buffer_peek_def fbind_Inr)

lemma peek_fails_only: "sgs_buffer_peek b data len = Inr (- 1, d) \<Longrightarrow> size b < len"
  by (auto simp add: sgs_buffer_peek_def fbind_eq_Inr split: if_splits)

lemma read_fails: "capacity b \<noteq> 0 \<Longrightarrow> size b < len \<Longrightarrow> sgs_buffer_read b data len = Inr (- 1, data, b)"
  by (simp add: sgs_buffer_read_def peek_fails fbind_Inr)

lemma read_fails_only: "sgs_buffer_read b data len = Inr (- 1, d, b') \<Longrightarrow> size b < len"
  by (auto simp add: sgs_buffer_read_def fbind_eq_Inr split: if_splits dest: peek_fails_only)

section \<open>Failure of peek and read\<close>

text \<open>
  Claim C7. On a buffer whose capacity is not zero, \<^verbatim>\<open>sgs_buffer_peek\<close> and
  \<^verbatim>\<open>sgs_buffer_read\<close> return \<open>- 1\<close> if and only if \<open>len\<close> is larger than the size, and
  then the caller's memory is what it was and the buffer, with its size and position,
  is unchanged.
\<close>

theorem peek_read_fail_iff:
  assumes "capacity b \<noteq> 0"
  shows "((\<exists>d. sgs_buffer_peek b data len = Inr (- 1, d)) \<longleftrightarrow> size b < len)
    \<and> (size b < len \<longrightarrow> sgs_buffer_peek b data len = Inr (- 1, data))
    \<and> ((\<exists>d b'. sgs_buffer_read b data len = Inr (- 1, d, b')) \<longleftrightarrow> size b < len)
    \<and> (size b < len \<longrightarrow> sgs_buffer_read b data len = Inr (- 1, data, b))"
  using peek_fails[OF assms, of len data] read_fails[OF assms, of len data]
    peek_fails_only[of b data len] read_fails_only[of b data len]
  by blast

theorem peek_read_fail_iff_witness:
  "capacity \<lparr>capacity = 8, position = 3, size = 2, buf = bytes_of ''ABCDEFGH''\<rparr> \<noteq> 0
   \<and> sgs_buffer_peek \<lparr>capacity = 8, position = 3, size = 2, buf = bytes_of ''ABCDEFGH''\<rparr> [7, 7, 7] 3
        = Inr (- 1, [7, 7, 7])
   \<and> sgs_buffer_read \<lparr>capacity = 8, position = 3, size = 2, buf = bytes_of ''ABCDEFGH''\<rparr> [7, 7, 7] 3
        = Inr (- 1, [7, 7, 7], \<lparr>capacity = 8, position = 3, size = 2, buf = bytes_of ''ABCDEFGH''\<rparr>)
   \<and> \<not> (\<exists>d. sgs_buffer_peek \<lparr>capacity = 8, position = 3, size = 2, buf = bytes_of ''ABCDEFGH''\<rparr> [7, 7, 7] 2
        = Inr (- 1, d))"
  using peek_read_fail_iff [where b = "\<lparr>capacity = 8, position = 3, size = 2, buf = bytes_of ''ABCDEFGH''\<rparr>"
      and data = "[7, 7, 7]" and len = 3]
    peek_read_fail_iff [where b = "\<lparr>capacity = 8, position = 3, size = 2, buf = bytes_of ''ABCDEFGH''\<rparr>"
      and data = "[7, 7, 7]" and len = 2]
  by simp

section \<open>Operations of length zero\<close>

text \<open>
  Claim C10. On a buffer with a capacity that is not zero, storage of that length and
  \<open>position < capacity\<close>, whatever its size (empty, full or beyond), a peek, a read and a
  write of length zero return 0 and leave the caller's memory and the whole buffer,
  its size, position and stored bytes, unchanged.
\<close>

theorem zero_length_ok:
  assumes "capacity b \<noteq> 0" and "position b < capacity b" and "length (buf b) = unat (capacity b)"
  shows "sgs_buffer_peek b data 0 = Inr (0, data)
    \<and> sgs_buffer_read b data 0 = Inr (0, data, b)
    \<and> sgs_buffer_write b data 0 = Inr (0, None, b)"
proof -
  have p: "unat (position b) \<le> length (buf b)"
    using assms by (simp add: word_less_nat_alt)
  have m: "position b mod capacity b = position b"
    using assms(2) by (simp add: mod_word_less)
  obtain r where r: "readable_len b = Inr r"
    using readable_len_returns[OF assms(1)] by blast
  obtain t where t: "tailpos b = Inr t" and tm: "t = (position b + size b) mod capacity b"
    using assms(1) by (simp add: tailpos_def size_mod_def)
  have tl: "unat t \<le> length (buf b)"
    using assms tm by (simp add: unat_mod unat_gt_0 less_imp_le)
  obtain w where w: "writable_len b = Inr w"
    using writable_len_returns[OF assms(1)] by blast
  have pk: "sgs_buffer_peek b data 0 = Inr (0, data)"
    using p by (simp add: sgs_buffer_peek_def r fbind_Inr memcpy_nothing)
  have rd: "sgs_buffer_read b data 0 = Inr (0, data, b)"
    using assms(1) by (simp add: sgs_buffer_read_def pk fbind_Inr size_mod_def m)
  have wr: "sgs_buffer_write b data 0 = Inr (0, None, b)"
    using tl by (simp add: sgs_buffer_write_def w t fbind_Inr memcpy_nothing)
  show ?thesis using pk rd wr by simp
qed

theorem zero_length_ok_witness:
  "sgs_buffer_peek \<lparr>capacity = 8, position = 3, size = 0, buf = bytes_of ''ABCDEFGH''\<rparr> [] 0 = Inr (0, [])
   \<and> sgs_buffer_read \<lparr>capacity = 8, position = 3, size = 0, buf = bytes_of ''ABCDEFGH''\<rparr> [] 0
        = Inr (0, [], \<lparr>capacity = 8, position = 3, size = 0, buf = bytes_of ''ABCDEFGH''\<rparr>)
   \<and> sgs_buffer_write \<lparr>capacity = 8, position = 3, size = 8, buf = bytes_of ''ABCDEFGH''\<rparr> [] 0
        = Inr (0, None, \<lparr>capacity = 8, position = 3, size = 8, buf = bytes_of ''ABCDEFGH''\<rparr>)"
  using zero_length_ok [where b = "\<lparr>capacity = 8, position = 3, size = 0, buf = bytes_of ''ABCDEFGH''\<rparr>" and data = "[]"]
    zero_length_ok [where b = "\<lparr>capacity = 8, position = 3, size = 8, buf = bytes_of ''ABCDEFGH''\<rparr>" and data = "[]"]
  by (simp add: bytes_of_def)

section \<open>Writing is all or nothing\<close>

lemma write_fails:
  "capacity b \<noteq> 0 \<Longrightarrow> sgs_buffer_remaining_capacity b < len \<Longrightarrow>
   sgs_buffer_write b data len = Inr (- 1, Some ENOBUFS, b)"
  using writable_len_returns[of b] by (auto simp add: sgs_buffer_write_def fbind_Inr)

lemma write_fails_only:
  "sgs_buffer_write b data len = Inr (- 1, e, b') \<Longrightarrow> sgs_buffer_remaining_capacity b < len"
  by (auto simp add: sgs_buffer_write_def fbind_eq_Inr split: if_splits)

lemma write_succeeds:
  assumes inv: "buffer_inv b" and room: "len \<le> sgs_buffer_remaining_capacity b"
    and src: "unat len \<le> length data"
  shows "\<exists>buf'. sgs_buffer_write b data len = Inr (0, None, b\<lparr>size := size b + len, buf := buf'\<rparr>)
    \<and> length buf' = length (buf b)"
proof -
  note n = buffer_inv_nat[OF inv]
  from writable_len_inv[OF inv] obtain t w where t: "tailpos b = Inr t"
    and w: "writable_len b = Inr w"
    and ut: "unat t = (if unat (position b) + unat (size b) < unat (capacity b)
              then unat (position b) + unat (size b)
              else unat (position b) + unat (size b) - unat (capacity b))"
    and uw: "unat w = (if unat (position b) + unat (size b) < unat (capacity b)
              then unat (capacity b) - (unat (position b) + unat (size b))
              else if unat (size b) = unat (capacity b) then unat (capacity b) - unat (position b)
              else unat (capacity b) - unat (size b))"
    by blast
  have "unat (capacity b - size b) = unat (capacity b) - unat (size b)"
    using inv by (simp add: unat_sub buffer_inv_def)
  with room have ul: "unat len \<le> unat (capacity b) - unat (size b)"
    by (simp add: sgs_buffer_remaining_capacity_def word_le_nat_alt)
  have nofail: "\<not> sgs_buffer_remaining_capacity b < len" using room by simp
  show ?thesis
  proof (cases "len \<le> w")
    case True
    then have "unat len \<le> unat w" by (simp add: word_le_nat_alt)
    then have "unat t + unat len \<le> length (buf b)"
      using ut uw ul n by (auto split: if_splits)
    then obtain buf' where m: "memcpy (buf b) (unat t) data 0 (unat len) = Inr buf'"
      using src by (simp add: memcpy_in_bounds)
    then have "sgs_buffer_write b data len = Inr (0, None, b\<lparr>size := size b + len, buf := buf'\<rparr>)"
      using True nofail by (simp add: sgs_buffer_write_def w t fbind_Inr)
    then show ?thesis using memcpy_length[OF m] by blast
  next
    case False
    then have lt: "unat w < unat len" by (simp add: word_le_nat_alt)
    then have sub: "unat (len - w) = unat len - unat w"
      by (simp add: unat_sub word_le_nat_alt)
    have first: "unat t + unat w \<le> length (buf b)"
      using ut uw ul n by (auto split: if_splits)
    then obtain buf1 where m1: "memcpy (buf b) (unat t) data 0 (unat w) = Inr buf1"
      using src lt by (simp add: memcpy_in_bounds)
    have l1: "length buf1 = length (buf b)" by (rule memcpy_length[OF m1])
    have "unat (len - w) \<le> length buf1" using sub ul n l1 by simp
    moreover have "unat w + unat (len - w) \<le> length data" using sub lt src by simp
    ultimately obtain buf2 where m2: "memcpy buf1 0 data (unat w) (unat (len - w)) = Inr buf2"
      by (simp add: memcpy_in_bounds)
    have "sgs_buffer_write b data len = Inr (0, None, b\<lparr>size := size b + len, buf := buf2\<rparr>)"
      using False nofail m1 m2 by (simp add: sgs_buffer_write_def w t fbind_Inr)
    then show ?thesis using memcpy_length[OF m2] l1 by auto
  qed
qed

lemma size_after_write:
  assumes inv: "buffer_inv b" and room: "len \<le> sgs_buffer_remaining_capacity b"
  shows "unat (size b + len) = unat (size b) + unat len"
    and "size b + len \<le> capacity b"
proof -
  note n = buffer_inv_nat[OF inv]
  have "unat (capacity b - size b) = unat (capacity b) - unat (size b)"
    using inv by (simp add: unat_sub buffer_inv_def)
  with room have ul: "unat len \<le> unat (capacity b) - unat (size b)"
    by (simp add: sgs_buffer_remaining_capacity_def word_le_nat_alt)
  then have "unat (size b) + unat len < 2 ^ 64" using n by simp
  then show a: "unat (size b + len) = unat (size b) + unat len"
    by (simp add: unat_add_lem[THEN iffD1])
  show "size b + len \<le> capacity b"
    using a ul n by (simp add: word_le_nat_alt)
qed

text \<open>
  Claim C6. On a buffer that meets the invariants, \<^verbatim>\<open>sgs_buffer_write\<close> returns \<open>- 1\<close>
  (with \<^verbatim>\<open>errno\<close> set to \<^verbatim>\<open>ENOBUFS\<close>) if and only if \<open>len\<close> is larger than the
  remaining capacity, and then the buffer is unchanged; otherwise, given \<open>len\<close> bytes
  to copy from, it returns 0, the size has grown by exactly \<open>len\<close> (without
  wrap-around and within the capacity), the position and the capacity are unchanged and
  the storage keeps its length.
\<close>

theorem write_all_or_nothing:
  assumes "buffer_inv b"
  shows "((\<exists>e b'. sgs_buffer_write b data len = Inr (- 1, e, b')) \<longleftrightarrow>
            sgs_buffer_remaining_capacity b < len)
    \<and> (sgs_buffer_remaining_capacity b < len \<longrightarrow>
          sgs_buffer_write b data len = Inr (- 1, Some ENOBUFS, b))
    \<and> (len \<le> sgs_buffer_remaining_capacity b \<and> unat len \<le> length data \<longrightarrow>
          (\<exists>buf'. sgs_buffer_write b data len = Inr (0, None, b\<lparr>size := size b + len, buf := buf'\<rparr>)
             \<and> length buf' = length (buf b))
          \<and> unat (size b + len) = unat (size b) + unat len
          \<and> size b + len \<le> capacity b)"
proof -
  have c: "capacity b \<noteq> 0" using assms by (simp add: buffer_inv_def buffer_wf_def)
  show ?thesis
    using write_fails[OF c, of len data] write_fails_only[of b data len]
      write_succeeds[OF assms, of len data] size_after_write[OF assms, of len]
    by blast
qed

theorem write_all_or_nothing_witness:
  "buffer_inv \<lparr>capacity = 8, position = 3, size = 2, buf = bytes_of ''ABCDEFGH''\<rparr>
   \<and> sgs_buffer_remaining_capacity \<lparr>capacity = 8, position = 3, size = 2, buf = bytes_of ''ABCDEFGH''\<rparr> = 6
   \<and> sgs_buffer_write \<lparr>capacity = 8, position = 3, size = 2, buf = bytes_of ''ABCDEFGH''\<rparr> (bytes_of ''1234567'') 7
        = Inr (- 1, Some ENOBUFS, \<lparr>capacity = 8, position = 3, size = 2, buf = bytes_of ''ABCDEFGH''\<rparr>)
   \<and> (\<exists>buf'. sgs_buffer_write \<lparr>capacity = 8, position = 3, size = 2, buf = bytes_of ''ABCDEFGH''\<rparr> (bytes_of ''123456'') 6
        = Inr (0, None, \<lparr>capacity = 8, position = 3, size = 8, buf = buf'\<rparr>))"
proof -
  have inv: "buffer_inv \<lparr>capacity = 8, position = 3, size = 2, buf = bytes_of ''ABCDEFGH''\<rparr>"
    by (simp add: buffer_inv_def buffer_wf_def bytes_of_def)
  have rem: "sgs_buffer_remaining_capacity \<lparr>capacity = 8, position = 3, size = 2, buf = bytes_of ''ABCDEFGH''\<rparr> = 6"
    by (simp add: sgs_buffer_remaining_capacity_def)
  show ?thesis
    using inv rem write_all_or_nothing [OF inv, where len = 7 and data = "bytes_of ''1234567''"]
      write_all_or_nothing [OF inv, where len = 6 and data = "bytes_of ''123456''"]
    by (auto simp add: bytes_of_def)
qed

section \<open>Empty, read and write keep the invariants\<close>

lemma empty_keeps_inv: "buffer_inv b \<Longrightarrow> buffer_inv (sgs_buffer_empty b)"
  by (auto simp add: buffer_inv_def buffer_wf_def sgs_buffer_empty_def word_gt_0)

lemma read_keeps_inv:
  assumes inv: "buffer_inv b" and rd: "sgs_buffer_read b data len = Inr (r, data', b')"
  shows "buffer_inv b'"
proof -
  have c: "capacity b \<noteq> 0" using inv by (simp add: buffer_inv_def buffer_wf_def)
  show ?thesis
  proof (cases "size b < len")
    case True
    from read_fails[OF c True, of data] rd inv show ?thesis by simp
  next
    case False
    have "\<And>d. sgs_buffer_peek b data len \<noteq> Inr (- 1, d)"
      using False peek_fails_only[of b data len] by blast
    with rd have b': "b' = b\<lparr>position := (position b + len) mod capacity b, size := size b - len\<rparr>"
      using c by (auto simp add: sgs_buffer_read_def fbind_eq_Inr size_mod_def split: if_splits)
    from False have le: "len \<le> size b" by simp
    then have "unat (size b - len) \<le> unat (size b)" by (simp add: unat_sub)
    then have s: "size b - len \<le> capacity b"
      using inv by (simp add: buffer_inv_def word_le_nat_alt)
    have "unat ((position b + len) mod capacity b) < unat (capacity b)"
      using c by (simp add: unat_mod unat_gt_0)
    then have p: "(position b + len) mod capacity b < capacity b" by (simp add: word_less_nat_alt)
    show ?thesis using inv s p by (simp add: b' buffer_inv_def buffer_wf_def)
  qed
qed

lemma split_copy_length:
  assumes "(if len \<le> w then memcpy bf t data 0 (unat len)
       else fbind (memcpy bf t data 0 (unat w))
              (\<lambda>buf'. memcpy buf' 0 data (unat w) (unat (len - w)))) = Inr buf'"
  shows "length buf' = length bf"
proof (cases "len \<le> w")
  case True
  with assms show ?thesis by (simp add: memcpy_length)
next
  case False
  with assms obtain buf1 where "memcpy bf t data 0 (unat w) = Inr buf1"
    and "memcpy buf1 0 data (unat w) (unat (len - w)) = Inr buf'"
    by (auto simp add: fbind_eq_Inr)
  then show ?thesis using memcpy_length by fastforce
qed

lemma fbind_InrE:
  assumes "fbind m f = Inr y"
  obtains x where "m = Inr x" and "f x = Inr y"
  using assms by (auto simp add: fbind_eq_Inr)

lemma write_keeps_inv:
  assumes inv: "buffer_inv b" and wr: "sgs_buffer_write b data len = Inr (r, e, b')"
  shows "buffer_inv b'"
proof (cases "sgs_buffer_remaining_capacity b < len")
  case True
  have "capacity b \<noteq> 0" using inv by (simp add: buffer_inv_def buffer_wf_def)
  from write_fails[OF this True, of data] wr inv show ?thesis by simp
next
  case False
  then have room: "len \<le> sgs_buffer_remaining_capacity b" by simp
  from wr obtain w where "writable_len b = Inr w" and
    "(if sgs_buffer_remaining_capacity b < len then Inr (- 1, Some ENOBUFS, b)
      else fbind (tailpos b) (\<lambda>t.
        fbind
          (if len \<le> w then memcpy (buf b) (unat t) data 0 (unat len)
           else fbind (memcpy (buf b) (unat t) data 0 (unat w))
                  (\<lambda>buf'. memcpy buf' 0 data (unat w) (unat (len - w))))
          (\<lambda>buf'. Inr (0, None, b\<lparr>size := size b + len, buf := buf'\<rparr>)))) = Inr (r, e, b')"
    unfolding sgs_buffer_write_def by (rule fbind_InrE)
  with False have "fbind (tailpos b) (\<lambda>t.
        fbind
          (if len \<le> w then memcpy (buf b) (unat t) data 0 (unat len)
           else fbind (memcpy (buf b) (unat t) data 0 (unat w))
                  (\<lambda>buf'. memcpy buf' 0 data (unat w) (unat (len - w))))
          (\<lambda>buf'. Inr (0, None, b\<lparr>size := size b + len, buf := buf'\<rparr>))) = Inr (r, e, b')"
    by simp
  then obtain t where "tailpos b = Inr t" and e2: "fbind
          (if len \<le> w then memcpy (buf b) (unat t) data 0 (unat len)
           else fbind (memcpy (buf b) (unat t) data 0 (unat w))
                  (\<lambda>buf'. memcpy buf' 0 data (unat w) (unat (len - w))))
          (\<lambda>buf'. Inr (0, None, b\<lparr>size := size b + len, buf := buf'\<rparr>)) = Inr (r, e, b')"
    by (rule fbind_InrE)
  from e2 obtain buf' where
    cp: "(if len \<le> w then memcpy (buf b) (unat t) data 0 (unat len)
           else fbind (memcpy (buf b) (unat t) data 0 (unat w))
                  (\<lambda>buf'. memcpy buf' 0 data (unat w) (unat (len - w)))) = Inr buf'"
    and "Inr (0, None, b\<lparr>size := size b + len, buf := buf'\<rparr>) = (Inr (r, e, b') :: fault + int \<times> errno option \<times> sgs_buffer)"
    by (rule fbind_InrE)
  then have b': "b' = b\<lparr>size := size b + len, buf := buf'\<rparr>" by simp
  from split_copy_length[OF cp] inv size_after_write(2)[OF inv room] show ?thesis
    by (simp add: b' buffer_inv_def buffer_wf_def)
qed

section \<open>The scenario with capacity 8\<close>

text \<open>
  Claim C8. On a fresh buffer of capacity 8, over whatever bytes the allocated block
  holds: writing \<open>ABCDE\<close> succeeds and the size is 5; reading 3 bytes returns \<open>ABC\<close>,
  the size is 2 and the position 3; the remaining capacity is 6 and writing \<open>FGHIJ\<close>
  succeeds with size 7, wrapping in the storage (\<open>FGH\<close> at the end, \<open>IJ\<close> at the
  start); reading 7 bytes returns \<open>DEFGHIJ\<close>.
\<close>

theorem scenario_capacity_8:
  fixes m0 m1 m2 m3 m4 m5 m6 m7 d0 d1 d2 e0 e1 e2 e3 e4 e5 e6 :: uint8_t
  defines "b0 \<equiv> \<lparr>capacity = 8, position = 0, size = 0, buf = [m0, m1, m2, m3, m4, m5, m6, m7]\<rparr>"
    and "b1 \<equiv> \<lparr>capacity = 8, position = 0, size = 5, buf = bytes_of ''ABCDE'' @ [m5, m6, m7]\<rparr>"
    and "b2 \<equiv> \<lparr>capacity = 8, position = 3, size = 2, buf = bytes_of ''ABCDE'' @ [m5, m6, m7]\<rparr>"
    and "b3 \<equiv> \<lparr>capacity = 8, position = 3, size = 7, buf = bytes_of ''IJCDEFGH''\<rparr>"
    and "b4 \<equiv> \<lparr>capacity = 8, position = 2, size = 0, buf = bytes_of ''IJCDEFGH''\<rparr>"
  shows "sgs_buffer_create True (Some [m0, m1, m2, m3, m4, m5, m6, m7]) 8 = Some b0
    \<and> sgs_buffer_write b0 (bytes_of ''ABCDE'') 5 = Inr (0, None, b1)
    \<and> sgs_buffer_size b1 = 5
    \<and> sgs_buffer_read b1 [d0, d1, d2] 3 = Inr (0, bytes_of ''ABC'', b2)
    \<and> sgs_buffer_size b2 = 2 \<and> position b2 = 3
    \<and> sgs_buffer_remaining_capacity b2 = 6
    \<and> sgs_buffer_write b2 (bytes_of ''FGHIJ'') 5 = Inr (0, None, b3)
    \<and> sgs_buffer_size b3 = 7
    \<and> sgs_buffer_read b3 [e0, e1, e2, e3, e4, e5, e6] 7 = Inr (0, bytes_of ''DEFGHIJ'', b4)"
  unfolding b0_def b1_def b2_def b3_def b4_def
  by (simp add: buffer_defs bytes_of_def)

section \<open>Reading from a descriptor\<close>

text \<open>
  On a well-formed buffer \<^verbatim>\<open>writable_len\<close> is never zero and the run it offers to
  \<^verbatim>\<open>read\<close> lies in the storage: either it ends at the end of the array or at the
  position. It is not zero on a full buffer either.
\<close>

lemma writable_len_wf:
  assumes "buffer_wf b"
  shows "\<exists>t w. tailpos b = Inr t \<and> writable_len b = Inr w \<and> 0 < unat w \<and>
    unat t + unat w \<le> length (buf b) \<and> unat w \<le> 2 ^ 63"
proof -
  from assms have c: "capacity b \<noteq> 0" and cb: "unat (capacity b) \<le> 2 ^ 63"
    and l: "length (buf b) = unat (capacity b)" and p: "unat (position b) < unat (capacity b)"
    by (simp_all add: buffer_wf_def word_less_nat_alt)
  define t where "t = (position b + size b) mod capacity b"
  have t: "tailpos b = Inr t" using c by (simp add: tailpos_def size_mod_def t_def)
  have tc: "unat t < unat (capacity b)"
    using c by (simp add: t_def unat_mod unat_gt_0)
  show ?thesis
  proof (cases "position b \<le> t")
    case True
    then have w: "writable_len b = Inr (capacity b - t)" by (simp add: writable_len_def t fbind_Inr)
    have "unat (capacity b - t) = unat (capacity b) - unat t"
      using tc by (simp add: unat_sub word_le_nat_alt)
    then show ?thesis using t w tc l cb by auto
  next
    case False
    then have w: "writable_len b = Inr (position b - t)" by (simp add: writable_len_def t fbind_Inr)
    from False have lt: "unat t < unat (position b)" by (simp add: word_le_nat_alt)
    then have "unat (position b - t) = unat (position b) - unat t"
      by (simp add: unat_sub word_le_nat_alt)
    then show ?thesis using t w lt p l cb by auto
  qed
qed

lemma size_t_of_nat: "n < 2 ^ 64 \<Longrightarrow> unat (of_nat n :: size_t) = n"
  by (simp add: unat_of_nat)

lemma unat_minus_one_size_t: "unat (- 1 :: size_t) = 2 ^ 64 - 1"
  by (simp add: unsigned_minus_1_eq_mask mask_eq_exp_minus_1)


lemma sys_read_in_bounds:
  "off + n \<le> length mem \<Longrightarrow>
   sys_read answer mem off n =
     (case answer n of
        None \<Rightarrow> Inr (- 1, mem)
      | Some bytes \<Rightarrow>
          Inr (of_nat (length (take n bytes)),
               take off mem @ take n bytes @ drop (off + length (take n bytes)) mem))"
  by (simp add: sys_read_def)

lemma size_t_of_nat_neq:
  assumes "n < unat (w :: size_t)"
  shows "(of_nat n :: size_t) \<noteq> w" "(of_nat n :: size_t) \<noteq> - 1" "0 < n \<Longrightarrow> (of_nat n :: size_t) \<noteq> 0"
proof -
  have "unat w < 2 ^ 64" using unsigned_less[of w] by simp
  then have n: "unat (of_nat n :: size_t) = n" using assms by (simp add: size_t_of_nat)
  show "(of_nat n :: size_t) \<noteq> w" using n assms by auto
  show "(of_nat n :: size_t) \<noteq> - 1" using n assms \<open>unat w < 2 ^ 64\<close>
    by (auto simp add: unat_minus_one_size_t)
  show "0 < n \<Longrightarrow> (of_nat n :: size_t) \<noteq> 0" using n by auto
qed

lemma loop_error:
  assumes wf: "buffer_wf b" and w: "writable_len b = Inr w" and fd: "fd i (unat w) = None"
  shows "read_from_fd_loop fd i b tot w = Some (Inr (- 1, b))"
proof -
  from writable_len_wf[OF wf] w obtain t where t: "tailpos b = Inr t"
    and pos: "0 < unat w" and fit: "unat t + unat w \<le> length (buf b)" by auto
  have "0 < w" using pos by (simp add: word_less_nat_alt)
  then show ?thesis
    by (subst read_from_fd_loop.simps) (simp add: t sys_read_in_bounds[OF fit] fd)
qed

lemma loop_eof:
  assumes wf: "buffer_wf b" and w: "writable_len b = Inr w" and fd: "fd i (unat w) = Some []"
  shows "read_from_fd_loop fd i b tot w = Some (Inr (0, b))"
proof -
  from writable_len_wf[OF wf] w obtain t where t: "tailpos b = Inr t"
    and pos: "0 < unat w" and fit: "unat t + unat w \<le> length (buf b)" by auto
  have "0 < w" using pos by (simp add: word_less_nat_alt)
  then show ?thesis
    by (subst read_from_fd_loop.simps) (simp add: t sys_read_in_bounds[OF fit] fd)
qed

lemma loop_partial:
  assumes wf: "buffer_wf b" and w: "writable_len b = Inr w" and t: "tailpos b = Inr t"
    and fd: "fd i (unat w) = Some bytes" and some: "bytes \<noteq> []" and less: "length bytes < unat w"
  shows "read_from_fd_loop fd i b tot w =
    Some (Inr (int_of_size (tot + of_nat (length bytes)),
      b\<lparr>size := size b + of_nat (length bytes),
        buf := take (unat t) (buf b) @ bytes @ drop (unat t + length bytes) (buf b)\<rparr>))"
proof -
  from writable_len_wf[OF wf] w t have pos: "0 < unat w"
    and fit: "unat t + unat w \<le> length (buf b)" by auto
  have "0 < w" using pos by (simp add: word_less_nat_alt)
  moreover have "0 < length bytes" using some by simp
  ultimately show ?thesis
    using less size_t_of_nat_neq[OF less]
    by (subst read_from_fd_loop.simps) (simp add: t sys_read_in_bounds[OF fit] fd Let_def)
qed

lemma writable_len_bounds:
  assumes wf: "buffer_wf b" and w: "writable_len b = Inr w"
  shows "w \<noteq> - 1" and "w \<noteq> 0" and "0 < w"
proof -
  from writable_len_wf[OF wf] w have pos: "0 < unat w" and small: "unat w \<le> 2 ^ 63" by auto
  show "0 < w" using pos by (simp add: word_less_nat_alt)
  then show "w \<noteq> 0" by simp
  show "w \<noteq> - 1"
  proof
    assume "w = - 1"
    then have "unat w = 2 ^ 64 - 1" by (simp add: unat_minus_one_size_t)
    with small show False by simp
  qed
qed

lemma full_read:
  assumes wf: "buffer_wf b" and w: "writable_len b = Inr w" and t: "tailpos b = Inr t"
    and fd: "answer (unat w) = Some bytes" and full: "unat w \<le> length bytes"
  shows "sys_read answer (buf b) (unat t) (unat w) =
      Inr (w, take (unat t) (buf b) @ take (unat w) bytes @ drop (unat t + unat w) (buf b))"
proof -
  from writable_len_wf[OF wf] w t have fit: "unat t + unat w \<le> length (buf b)" by auto
  show ?thesis using full by (simp add: sys_read_in_bounds[OF fit] fd min_def)
qed

lemma full_read_wf:
  assumes wf: "buffer_wf b" and w: "writable_len b = Inr w" and t: "tailpos b = Inr t"
    and full: "unat w \<le> length bytes"
  shows "buffer_wf (b\<lparr>size := size b + w,
        buf := take (unat t) (buf b) @ take (unat w) bytes @ drop (unat t + unat w) (buf b)\<rparr>)"
proof -
  from writable_len_wf[OF wf] w t have fit: "unat t + unat w \<le> length (buf b)" by auto
  have "length (take (unat t) (buf b) @ take (unat w) bytes @ drop (unat t + unat w) (buf b))
      = length (buf b)"
    using fit full by simp
  then show ?thesis using wf by (simp add: buffer_wf_def)
qed

lemma loop_full:
  assumes wf: "buffer_wf b" and w: "writable_len b = Inr w" and t: "tailpos b = Inr t"
    and fd: "fd i (unat w) = Some bytes" and full: "unat w \<le> length bytes"
    and w': "writable_len (b\<lparr>size := size b + w,
        buf := take (unat t) (buf b) @ take (unat w) bytes @ drop (unat t + unat w) (buf b)\<rparr>) = Inr w'"
  shows "read_from_fd_loop fd i b tot w =
    read_from_fd_loop fd (Suc i)
      (b\<lparr>size := size b + w,
        buf := take (unat t) (buf b) @ take (unat w) bytes @ drop (unat t + unat w) (buf b)\<rparr>)
      (tot + w) w'"
  using writable_len_bounds[OF wf w]
  by (subst read_from_fd_loop.simps)
    (simp add: t full_read[of b w t "fd i", OF wf w t fd full] w' Let_def)

text \<open>
  The value returned is a \<^verbatim>\<open>size_t\<close> converted to \<^verbatim>\<open>int\<close>: the number itself when it is
  below \<open>2 ^ 31\<close>, its low 32 bits read as a signed number otherwise.
\<close>

lemma int_of_size_small:
  assumes "unat n < 2 ^ 31"
  shows "int_of_size n = int (unat n)"
proof -
  have "sint (ucast n :: 32 word) = signed_take_bit (LENGTH(32) - Suc 0) (uint n)"
    by (rule signed_ucast_eq)
  also have "\<dots> = signed_take_bit 31 (int (unat n))"
    by (simp only: uint_nat) simp
  also have "\<dots> = int (unat n)"
  proof (rule signed_take_bit_int_eq_self)
    have "(0::int) \<le> int (unat n)" by (rule of_nat_0_le_iff)
    moreover have "- (2 ^ 31) \<le> (0::int)" by simp
    ultimately show "- (2 ^ 31) \<le> int (unat n)" by (rule order_trans[rotated])
    have "int (unat n) < int (2 ^ 31)" using assms by (simp only: of_nat_less_iff)
    then show "int (unat n) < 2 ^ 31" by simp
  qed
  finally show ?thesis by (simp only: int_of_size_def)
qed

lemma int_of_size_wraps: "int_of_size 4294967296 = 0" "int_of_size 2147483653 = - 2147483643"
  by (simp_all add: int_of_size_def)

lemma running_total_value:
  assumes "unat tot + k < 2 ^ 31"
  shows "int_of_size (tot + of_nat k) = int (unat tot + k)"
proof -
  have k: "unat (of_nat k :: size_t) = k" using assms by (simp add: size_t_of_nat)
  have "unat tot + unat (of_nat k :: size_t) < 2 ^ 64" using assms k by simp
  then have "unat (tot + of_nat k) = unat tot + unat (of_nat k :: size_t)"
    using unat_add_lem[of tot "of_nat k"] by simp
  then have u: "unat (tot + of_nat k) = unat tot + k" using k by simp
  then have "unat (tot + of_nat k) < 2 ^ 31" using assms by simp
  from int_of_size_small[OF this] u show ?thesis by simp
qed

text \<open>
  Whatever the buffer and the descriptor: when the loop returns, it returns \<open>- 1\<close>, 0,
  or the running total it was entered with plus the growth of the size; the position
  and the capacity are unchanged.
\<close>

lemma read_from_fd_loop_value_aux:
  assumes "read_from_fd_loop fd i b tot w = Some y"
  shows "\<forall>r b'. y = Inr (r, b') \<longrightarrow>
    (r = - 1 \<or> r = 0 \<or> r = int_of_size (tot + (size b' - size b)))
    \<and> position b' = position b \<and> capacity b' = capacity b"
proof (rule read_from_fd_loop.raw_induct[where P = "\<lambda>fd i b tot w y. \<forall>r b'. y = Inr (r, b') \<longrightarrow>
    (r = - 1 \<or> r = 0 \<or> r = int_of_size (tot + (size b' - size b)))
    \<and> position b' = position b \<and> capacity b' = capacity b", OF _ assms])
  fix f :: "read_fd \<Rightarrow> nat \<Rightarrow> sgs_buffer \<Rightarrow> size_t \<Rightarrow> size_t \<Rightarrow> (fault + int \<times> sgs_buffer) option"
  fix fd i b tot w y
  assume IH: "\<And>fd i b tot w y. f fd i b tot w = Some y \<Longrightarrow>
    \<forall>r b'. y = Inr (r, b') \<longrightarrow>
    (r = - 1 \<or> r = 0 \<or> r = int_of_size (tot + (size b' - size b)))
    \<and> position b' = position b \<and> capacity b' = capacity b"
  assume body: "(if 0 < w then
        (case tailpos b of
           Inl e \<Rightarrow> Some (Inl e)
         | Inr t \<Rightarrow>
            (case sys_read (fd i) (buf b) (unat t) (unat w) of
               Inl e \<Rightarrow> Some (Inl e)
             | Inr (result, buf') \<Rightarrow>
                 if result = - 1 then Some (Inr (- 1, b\<lparr>buf := buf'\<rparr>))
                 else if result = 0 then Some (Inr (0, b\<lparr>buf := buf'\<rparr>))
                 else
                   let total'' = tot + result;
                       buffer' = b\<lparr>size := size b + result, buf := buf'\<rparr>
                   in if result \<noteq> w then Some (Inr (int_of_size total'', buffer'))
                      else (case writable_len buffer' of
                              Inl e \<Rightarrow> Some (Inl e)
                            | Inr writable' \<Rightarrow> f fd (Suc i) buffer' total'' writable')))
      else Some (Inr (int_of_size tot, b))) = Some y"
  show "\<forall>r b'. y = Inr (r, b') \<longrightarrow>
    (r = - 1 \<or> r = 0 \<or> r = int_of_size (tot + (size b' - size b)))
    \<and> position b' = position b \<and> capacity b' = capacity b"
  proof (intro allI impI)
    fix r b'
    assume y: "y = Inr (r, b')"
    show "(r = - 1 \<or> r = 0 \<or> r = int_of_size (tot + (size b' - size b)))
      \<and> position b' = position b \<and> capacity b' = capacity b"
    proof (cases "0 < w")
      case False
      with body y show ?thesis by simp
    next
      case True
      with body y obtain t result buf' where t: "tailpos b = Inr t"
        and rd: "sys_read (fd i) (buf b) (unat t) (unat w) = Inr (result, buf')"
        by (auto split: sum.splits)
      show ?thesis
      proof (cases "result = - 1 \<or> result = 0 \<or> result \<noteq> w")
        case stop: True
        with body y True t rd show ?thesis
          by (auto simp add: Let_def split: if_splits)
      next
        case False
        then have res: "w \<noteq> - 1" "w \<noteq> 0" "result = w" by auto
        let ?b1 = "b\<lparr>size := size b + w, buf := buf'\<rparr>"
        from body y True t rd res obtain w' where
          "f fd (Suc i) ?b1 (tot + w) w' = Some (Inr (r, b'))"
          by (auto simp add: Let_def split: sum.splits)
        from IH[OF this] show ?thesis by simp
      qed
    qed
  qed
qed


lemma read_from_fd_value:
  assumes "sgs_buffer_read_from_fd b fd = Some (Inr (r, b'))"
  shows "(r = - 1 \<or> r = 0 \<or> r = int_of_size (size b' - size b))
    \<and> position b' = position b \<and> capacity b' = capacity b"
proof -
  from assms obtain w where "read_from_fd_loop fd 0 b 0 w = Some (Inr (r, b'))"
    by (auto simp add: sgs_buffer_read_from_fd_def split: sum.splits)
  from read_from_fd_loop_value_aux[OF this] show ?thesis by simp
qed

text \<open>
  Claim C3, as amended. A call of \<^verbatim>\<open>sgs_buffer_read_from_fd\<close> that returns, returns
  \<open>- 1\<close>, 0, or the growth of the size, which is the number of bytes transferred in the
  call, converted to \<^verbatim>\<open>int\<close>. Which of them, at the test of the loop, on a well-formed
  buffer with tail \<open>t\<close>, with \<open>w\<close> bytes writable, after \<open>i\<close> calls of \<^verbatim>\<open>read\<close> and with
  any running total \<open>tot\<close> (the call itself enters the loop with \<open>i = 0\<close> and
  \<open>tot = 0\<close>): if the descriptor answers with an error, \<open>- 1\<close> is returned; if it
  answers with the end of the stream, 0 is returned, whatever the running total is;
  if it answers with fewer bytes than requested, the bytes are stored at the tail, the
  size grows by their number and the running total with them, converted to \<^verbatim>\<open>int\<close>, is
  returned: that total itself when it is below \<open>2 ^ 31\<close>; if it answers with all the
  bytes requested, they are stored, the size grows by \<open>w\<close> and the loop goes on from a
  well-formed buffer with the total \<open>tot + w\<close>. In the first two cases the buffer keeps
  what earlier iterations stored.
\<close>

theorem read_from_fd_returns:
  assumes wf: "buffer_wf b" and t: "tailpos b = Inr t" and w: "writable_len b = Inr w"
  shows "sgs_buffer_read_from_fd b fd = read_from_fd_loop fd 0 b 0 w
    \<and> (fd i (unat w) = None \<longrightarrow> read_from_fd_loop fd i b tot w = Some (Inr (- 1, b)))
    \<and> (fd i (unat w) = Some [] \<longrightarrow> read_from_fd_loop fd i b tot w = Some (Inr (0, b)))
    \<and> (\<forall>bytes. fd i (unat w) = Some bytes \<and> bytes \<noteq> [] \<and> length bytes < unat w \<longrightarrow>
          read_from_fd_loop fd i b tot w =
            Some (Inr (int_of_size (tot + of_nat (length bytes)),
              b\<lparr>size := size b + of_nat (length bytes),
                buf := take (unat t) (buf b) @ bytes @ drop (unat t + length bytes) (buf b)\<rparr>))
          \<and> (unat tot + length bytes < 2 ^ 31 \<longrightarrow>
                int_of_size (tot + of_nat (length bytes)) = int (unat tot + length bytes)))
    \<and> (\<forall>bytes. fd i (unat w) = Some bytes \<and> unat w \<le> length bytes \<longrightarrow>
          (\<exists>w'. buffer_wf (b\<lparr>size := size b + w,
                  buf := take (unat t) (buf b) @ take (unat w) bytes @ drop (unat t + unat w) (buf b)\<rparr>)
             \<and> writable_len (b\<lparr>size := size b + w,
                  buf := take (unat t) (buf b) @ take (unat w) bytes @ drop (unat t + unat w) (buf b)\<rparr>)
                 = Inr w'
             \<and> read_from_fd_loop fd i b tot w =
                 read_from_fd_loop fd (Suc i)
                   (b\<lparr>size := size b + w,
                     buf := take (unat t) (buf b) @ take (unat w) bytes @ drop (unat t + unat w) (buf b)\<rparr>)
                   (tot + w) w'))
    \<and> (\<forall>r b'. sgs_buffer_read_from_fd b fd = Some (Inr (r, b')) \<longrightarrow>
          (r = - 1 \<or> r = 0 \<or> r = int_of_size (size b' - size b))
          \<and> (unat (size b' - size b) < 2 ^ 31 \<longrightarrow>
                r = - 1 \<or> r = 0 \<or> r = int (unat (size b' - size b)))
          \<and> position b' = position b \<and> capacity b' = capacity b)"
proof -
  have top: "sgs_buffer_read_from_fd b fd = read_from_fd_loop fd 0 b 0 w"
    by (simp add: sgs_buffer_read_from_fd_def w)
  have err: "fd i (unat w) = None \<longrightarrow> read_from_fd_loop fd i b tot w = Some (Inr (- 1, b))"
    using loop_error[where fd = fd and i = i, OF wf w] by blast
  have eof: "fd i (unat w) = Some [] \<longrightarrow> read_from_fd_loop fd i b tot w = Some (Inr (0, b))"
    using loop_eof[where fd = fd and i = i, OF wf w] by blast
  have part: "\<forall>bytes. fd i (unat w) = Some bytes \<and> bytes \<noteq> [] \<and> length bytes < unat w \<longrightarrow>
      read_from_fd_loop fd i b tot w =
        Some (Inr (int_of_size (tot + of_nat (length bytes)),
          b\<lparr>size := size b + of_nat (length bytes),
            buf := take (unat t) (buf b) @ bytes @ drop (unat t + length bytes) (buf b)\<rparr>))
      \<and> (unat tot + length bytes < 2 ^ 31 \<longrightarrow>
            int_of_size (tot + of_nat (length bytes)) = int (unat tot + length bytes))"
    using loop_partial[where fd = fd and i = i and tot = tot, OF wf w t]
      running_total_value[of tot]
    by simp
  have full: "\<forall>bytes. fd i (unat w) = Some bytes \<and> unat w \<le> length bytes \<longrightarrow>
      (\<exists>w'. buffer_wf (b\<lparr>size := size b + w,
              buf := take (unat t) (buf b) @ take (unat w) bytes @ drop (unat t + unat w) (buf b)\<rparr>)
         \<and> writable_len (b\<lparr>size := size b + w,
              buf := take (unat t) (buf b) @ take (unat w) bytes @ drop (unat t + unat w) (buf b)\<rparr>)
             = Inr w'
         \<and> read_from_fd_loop fd i b tot w =
             read_from_fd_loop fd (Suc i)
               (b\<lparr>size := size b + w,
                 buf := take (unat t) (buf b) @ take (unat w) bytes @ drop (unat t + unat w) (buf b)\<rparr>)
               (tot + w) w')"
  proof (intro allI impI)
    fix bytes
    let ?b' = "b\<lparr>size := size b + w,
      buf := take (unat t) (buf b) @ take (unat w) bytes @ drop (unat t + unat w) (buf b)\<rparr>"
    assume a: "fd i (unat w) = Some bytes \<and> unat w \<le> length bytes"
    then have wf': "buffer_wf ?b'" using full_read_wf[OF wf w t] by simp
    from writable_len_wf[OF wf'] obtain w' where w': "writable_len ?b' = Inr w'" by auto
    from a have "read_from_fd_loop fd i b tot w = read_from_fd_loop fd (Suc i) ?b' (tot + w) w'"
      using loop_full[where fd = fd and i = i and tot = tot, OF wf w t _ _ w'] by simp
    with wf' w' show "\<exists>w'. buffer_wf ?b' \<and> writable_len ?b' = Inr w' \<and>
        read_from_fd_loop fd i b tot w = read_from_fd_loop fd (Suc i) ?b' (tot + w) w'"
      by blast
  qed
  have val: "\<forall>r b'. sgs_buffer_read_from_fd b fd = Some (Inr (r, b')) \<longrightarrow>
      (r = - 1 \<or> r = 0 \<or> r = int_of_size (size b' - size b))
      \<and> (unat (size b' - size b) < 2 ^ 31 \<longrightarrow>
            r = - 1 \<or> r = 0 \<or> r = int (unat (size b' - size b)))
      \<and> position b' = position b \<and> capacity b' = capacity b"
  proof (intro allI impI)
    fix r b'
    assume ret: "sgs_buffer_read_from_fd b fd = Some (Inr (r, b'))"
    note v = read_from_fd_value[OF ret]
    have "unat (size b' - size b) < 2 ^ 31 \<longrightarrow>
        r = - 1 \<or> r = 0 \<or> r = int (unat (size b' - size b))"
      using v int_of_size_small[of "size b' - size b"] by auto
    with v show "(r = - 1 \<or> r = 0 \<or> r = int_of_size (size b' - size b))
      \<and> (unat (size b' - size b) < 2 ^ 31 \<longrightarrow>
            r = - 1 \<or> r = 0 \<or> r = int (unat (size b' - size b)))
      \<and> position b' = position b \<and> capacity b' = capacity b"
      by simp
  qed
  show ?thesis
    by (rule conjI[OF top conjI[OF err conjI[OF eof conjI[OF part conjI[OF full val]]]]])
qed

theorem read_from_fd_returns_witness:
  "sgs_buffer_read_from_fd \<lparr>capacity = 8, position = 3, size = 2, buf = [0, 0, 0, 7, 8, 0, 0, 0]\<rparr> all_then_one
     = Some (Inr (4, \<lparr>capacity = 8, position = 3, size = 6, buf = [2, 0, 0, 7, 8, 1, 1, 1]\<rparr>))
   \<and> read_from_fd_loop all_then_one (Suc 0)
        \<lparr>capacity = 8, position = 3, size = 5, buf = [0, 0, 0, 7, 8, 1, 1, 1]\<rparr> 4294967295 3
     = Some (Inr (0, \<lparr>capacity = 8, position = 3, size = 6, buf = [2, 0, 0, 7, 8, 1, 1, 1]\<rparr>))"
proof -
  let ?b = "\<lparr>capacity = 8, position = 3, size = 2, buf = [0, 0, 0, 7, 8, 0, 0, 0]\<rparr>"
  let ?b' = "\<lparr>capacity = 8, position = 3, size = 5, buf = [0, 0, 0, 7, 8, 1, 1, 1]\<rparr>"
  have wf: "buffer_wf ?b" and wf': "buffer_wf ?b'" by (simp_all add: buffer_wf_def)
  have t: "tailpos ?b = Inr 5" and t': "tailpos ?b' = Inr 0"
    by (simp_all add: tailpos_def size_mod_def)
  have w: "writable_len ?b = Inr 3" and w': "writable_len ?b' = Inr 3"
    by (simp_all add: writable_len_def tailpos_def size_mod_def fbind_def)
  have r3: "replicate 3 (1 :: uint8_t) = [1, 1, 1]" by (simp add: numeral_eq_Suc)
  from read_from_fd_returns [OF wf t w, of all_then_one 0 0]
  have "sgs_buffer_read_from_fd ?b all_then_one = read_from_fd_loop all_then_one (Suc 0) ?b' 3 3"
    using w' by (simp add: all_then_one_def r3)
  moreover from read_from_fd_returns [OF wf' t' w', of all_then_one "Suc 0" 3]
  have "read_from_fd_loop all_then_one (Suc 0) ?b' 3 3
      = Some (Inr (4, \<lparr>capacity = 8, position = 3, size = 6, buf = [2, 0, 0, 7, 8, 1, 1, 1]\<rparr>))"
    by (simp add: all_then_one_def int_of_size_def)
  moreover from read_from_fd_returns [OF wf' t' w', of all_then_one "Suc 0" 4294967295]
  have "read_from_fd_loop all_then_one (Suc 0) ?b' 4294967295 3
      = Some (Inr (0, \<lparr>capacity = 8, position = 3, size = 6, buf = [2, 0, 0, 7, 8, 1, 1, 1]\<rparr>))"
    by (simp add: all_then_one_def int_of_size_wraps)
  ultimately show ?thesis by simp
qed

text \<open>
  The claim as it was stated fails: with two bytes stored at position 3 of 8, the first
  \<^verbatim>\<open>read\<close> delivers the three bytes requested and the second answers with the end of
  the stream; the call has transferred three bytes, the size has grown from 2 to 5,
  and it returns 0.
\<close>

theorem read_from_fd_eof_after_transfer:
  "sgs_buffer_read_from_fd \<lparr>capacity = 8, position = 3, size = 2, buf = [0, 0, 0, 7, 8, 0, 0, 0]\<rparr> three_then_eof
     = Some (Inr (0, \<lparr>capacity = 8, position = 3, size = 5, buf = [0, 0, 0, 7, 8, 10, 11, 12]\<rparr>))"
  by (simp add: sgs_buffer_read_from_fd_def writable_len_def tailpos_def size_mod_def fbind_def
      read_from_fd_loop.simps sys_read_def three_then_eof_def)

section \<open>The full buffer\<close>

text \<open>
  On a full buffer the tail equals the position, as on an empty one, and both
  \<^verbatim>\<open>readable_len\<close> and \<^verbatim>\<open>writable_len\<close> take the branch of data that has not wrapped:
  \<^verbatim>\<open>readable_len\<close> answers the whole size although only \<open>capacity - position\<close> bytes
  lie before the end of the array, and \<^verbatim>\<open>writable_len\<close> answers \<open>capacity - position\<close>
  although no byte is free.
\<close>

text \<open>
  So a peek of no more than the size, on a buffer that meets the invariants, returns
  if the buffer is not full or the bytes requested end before the end of the array,
  and on a full buffer it copies past the end of the storage if they do not.
\<close>

lemma peek_succeeds:
  assumes inv: "buffer_inv b" and len: "len \<le> size b" and dst: "unat len \<le> length data"
    and ok: "size b < capacity b \<or> unat (position b) + unat len \<le> unat (capacity b)"
  shows "\<exists>d. sgs_buffer_peek b data len = Inr (0, d) \<and> length d = length data"
proof -
  note n = buffer_inv_nat[OF inv]
  from readable_len_inv[OF inv] obtain r where r: "readable_len b = Inr r"
    and ur: "unat r = (if unat (position b) + unat (size b) < unat (capacity b) then unat (size b)
              else if unat (size b) = unat (capacity b) then unat (capacity b)
              else unat (capacity b) - unat (position b))"
    by blast
  from len have ul: "unat len \<le> unat (size b)" by (simp add: word_le_nat_alt)
  from len have nf: "\<not> size b < len" by simp
  from ok have ok': "unat (size b) < unat (capacity b) \<or>
      unat (position b) + unat len \<le> unat (capacity b)"
    by (simp add: word_less_nat_alt)
  show ?thesis
  proof (cases "len \<le> r")
    case True
    then have "unat len \<le> unat r" by (simp add: word_le_nat_alt)
    then have "unat (position b) + unat len \<le> length (buf b)"
      using ur ul ok' n by (auto split: if_splits)
    then obtain d where m: "memcpy data 0 (buf b) (unat (position b)) (unat len) = Inr d"
      using dst by (simp add: memcpy_in_bounds)
    have "sgs_buffer_peek b data len = Inr (0, d)"
      using True nf by (simp add: sgs_buffer_peek_def r m fbind_Inr)
    then show ?thesis using memcpy_length[OF m] by blast
  next
    case False
    then have lt: "unat r < unat len" by (simp add: word_le_nat_alt)
    then have sub: "unat (len - r) = unat len - unat r"
      by (simp add: unat_sub word_le_nat_alt)
    have wrapped: "unat r = unat (capacity b) - unat (position b)"
      using ur ul lt by (auto split: if_splits)
    have "unat (position b) + unat r \<le> length (buf b)" using wrapped n by simp
    then obtain d1 where m1: "memcpy data 0 (buf b) (unat (position b)) (unat r) = Inr d1"
      using dst lt by (simp add: memcpy_in_bounds)
    have l1: "length d1 = length data" by (rule memcpy_length[OF m1])
    have "unat r + unat (len - r) \<le> length d1" using sub lt dst l1 by simp
    moreover have "unat (len - r) \<le> length (buf b)" using sub ul n by simp
    ultimately obtain d2 where m2: "memcpy d1 (unat r) (buf b) 0 (unat (len - r)) = Inr d2"
      by (simp add: memcpy_in_bounds)
    have "sgs_buffer_peek b data len = Inr (0, d2)"
      using False nf by (simp add: sgs_buffer_peek_def r m1 m2 fbind_Inr)
    then show ?thesis using memcpy_length[OF m2] l1 by auto
  qed
qed

lemma peek_out_of_bounds:
  assumes inv: "buffer_inv b" and full: "size b = capacity b" and len: "len \<le> size b"
    and past: "unat (capacity b) < unat (position b) + unat len"
  shows "sgs_buffer_peek b data len = Inl OutOfBounds"
proof -
  note n = buffer_inv_nat[OF inv]
  from readable_len_inv[OF inv] obtain r where r: "readable_len b = Inr r"
    and ur: "unat r = (if unat (position b) + unat (size b) < unat (capacity b) then unat (size b)
              else if unat (size b) = unat (capacity b) then unat (capacity b)
              else unat (capacity b) - unat (position b))"
    by blast
  from full have "unat r = unat (size b)" using ur n by simp
  then have "r = size b" by (simp only: word_unat_eq_iff)
  with len have lr: "len \<le> r" and nf: "\<not> size b < len" by simp_all
  have "memcpy data 0 (buf b) (unat (position b)) (unat len) = Inl OutOfBounds"
    using past n by (simp add: memcpy_def)
  then show ?thesis using lr nf by (simp add: sgs_buffer_peek_def r fbind_Inr fbind_Inl)
qed

text \<open>
  Claim C1 fails on the code. A buffer of capacity 8 is filled while its position is 3
  (write 3 bytes, read them, write 8 bytes); it meets the invariants, and
  \<^verbatim>\<open>readable_len\<close> answers 8. A peek or a read of 8 bytes, or of 6, copies from offset
  3 past the end of the storage, and \<^verbatim>\<open>sgs_buffer_write_to_fd\<close> offers the descriptor
  8 bytes from offset 3.
\<close>

theorem full_wrapped_buffer_out_of_bounds:
  fixes m0 m1 m2 m3 m4 m5 m6 m7 :: uint8_t and dst :: "uint8_t list" and fd :: write_fd
  defines "b0 \<equiv> \<lparr>capacity = 8, position = 0, size = 0, buf = [m0, m1, m2, m3, m4, m5, m6, m7]\<rparr>"
    and "b1 \<equiv> \<lparr>capacity = 8, position = 0, size = 3, buf = bytes_of ''abc'' @ [m3, m4, m5, m6, m7]\<rparr>"
    and "b2 \<equiv> \<lparr>capacity = 8, position = 3, size = 0, buf = bytes_of ''abc'' @ [m3, m4, m5, m6, m7]\<rparr>"
    and "b3 \<equiv> \<lparr>capacity = 8, position = 3, size = 8, buf = bytes_of ''FGHABCDE''\<rparr>"
  shows "sgs_buffer_create True (Some [m0, m1, m2, m3, m4, m5, m6, m7]) 8 = Some b0
    \<and> sgs_buffer_write b0 (bytes_of ''abc'') 3 = Inr (0, None, b1)
    \<and> sgs_buffer_read b1 [0, 0, 0] 3 = Inr (0, bytes_of ''abc'', b2)
    \<and> sgs_buffer_write b2 (bytes_of ''ABCDEFGH'') 8 = Inr (0, None, b3)
    \<and> buffer_inv b3
    \<and> readable_len b3 = Inr 8
    \<and> sgs_buffer_peek b3 [0, 0, 0, 0, 0, 0, 0, 0] 8 = Inl OutOfBounds
    \<and> sgs_buffer_peek b3 [0, 0, 0, 0, 0, 0] 6 = Inl OutOfBounds
    \<and> sgs_buffer_read b3 [0, 0, 0, 0, 0, 0, 0, 0] 8 = Inl OutOfBounds
    \<and> sgs_buffer_write_to_fd b3 fd = Some (Inl OutOfBounds)"
  unfolding b0_def b1_def b2_def b3_def
  by (simp add: buffer_defs bytes_of_def buffer_inv_def buffer_wf_def sgs_buffer_write_to_fd_def
      write_to_fd_loop.simps sys_write_def)

text \<open>
  Claim C9 fails on the code, by the same defect: on a buffer of capacity 4 filled
  while its position is 1, a peek of 4 bytes, which is no more than the size, does not
  return: it copies 4 bytes from offset 1 of the storage of 4 bytes. A peek of 3 bytes
  returns them.
\<close>

theorem peek_full_wrapped_fails:
  fixes m0 m1 m2 m3 :: uint8_t
  defines "b0 \<equiv> \<lparr>capacity = 4, position = 0, size = 0, buf = [m0, m1, m2, m3]\<rparr>"
    and "b1 \<equiv> \<lparr>capacity = 4, position = 0, size = 1, buf = bytes_of ''x'' @ [m1, m2, m3]\<rparr>"
    and "b2 \<equiv> \<lparr>capacity = 4, position = 1, size = 0, buf = bytes_of ''x'' @ [m1, m2, m3]\<rparr>"
    and "b3 \<equiv> \<lparr>capacity = 4, position = 1, size = 4, buf = bytes_of ''DABC''\<rparr>"
  shows "sgs_buffer_create True (Some [m0, m1, m2, m3]) 4 = Some b0
    \<and> sgs_buffer_write b0 (bytes_of ''x'') 1 = Inr (0, None, b1)
    \<and> sgs_buffer_read b1 [0] 1 = Inr (0, bytes_of ''x'', b2)
    \<and> sgs_buffer_write b2 (bytes_of ''ABCD'') 4 = Inr (0, None, b3)
    \<and> 4 \<le> sgs_buffer_size b3
    \<and> sgs_buffer_peek b3 [0, 0, 0, 0] 4 = Inl OutOfBounds
    \<and> sgs_buffer_peek b3 [0, 0, 0] 3 = Inr (0, bytes_of ''ABC'')"
  unfolding b0_def b1_def b2_def b3_def
  by (simp add: buffer_defs bytes_of_def)

lemma replicate_8: "replicate 8 x = [x, x, x, x, x, x, x, x]"
  by (simp add: numeral_eq_Suc)

text \<open>
  Claim C2 fails on the code. On a fresh buffer of capacity 8, which meets the
  invariants, \<^verbatim>\<open>sgs_buffer_read_from_fd\<close> receives the 8 bytes it requests, finds 8 bytes
  writable again and requests them, receives one byte, which replaces the first byte
  stored, and returns 9 with a size of 9.
\<close>

theorem read_from_fd_overfills:
  "sgs_buffer_create True (Some [0, 0, 0, 0, 0, 0, 0, 0]) 8
      = Some \<lparr>capacity = 8, position = 0, size = 0, buf = [0, 0, 0, 0, 0, 0, 0, 0]\<rparr>
   \<and> buffer_inv \<lparr>capacity = 8, position = 0, size = 0, buf = [0, 0, 0, 0, 0, 0, 0, 0]\<rparr>
   \<and> sgs_buffer_read_from_fd \<lparr>capacity = 8, position = 0, size = 0, buf = [0, 0, 0, 0, 0, 0, 0, 0]\<rparr> all_then_one
      = Some (Inr (9, \<lparr>capacity = 8, position = 0, size = 9, buf = [2, 1, 1, 1, 1, 1, 1, 1]\<rparr>))
   \<and> \<not> size \<lparr>capacity = 8, position = 0, size = 9, buf = [2, 1, 1, 1, 1, 1, 1, 1]\<rparr>
        \<le> capacity \<lparr>capacity = 8, position = 0, size = 9, buf = [2, 1, 1, 1, 1, 1, 1, 1]\<rparr>"
  by (simp add: sgs_buffer_create_def buffer_inv_def buffer_wf_def sgs_buffer_read_from_fd_def
      writable_len_def tailpos_def size_mod_def fbind_def read_from_fd_loop.simps sys_read_def
      all_then_one_def int_of_size_def replicate_8)

section \<open>When reading from a descriptor returns\<close>

text \<open>
  Against a descriptor that answers every request with all the bytes requested the loop
  never leaves, from whatever well-formed buffer it starts: \<^verbatim>\<open>writable_len\<close> is not
  zero on a full buffer.
\<close>

lemma loop_never_returns_aux:
  assumes "read_from_fd_loop fd i b tot w = Some y"
  shows "buffer_wf b \<and> writable_len b = Inr w \<and>
    (\<forall>i n. \<exists>bytes. fd i n = Some bytes \<and> n \<le> length bytes) \<longrightarrow> False"
proof (rule read_from_fd_loop.raw_induct[where P = "\<lambda>fd i b tot w y.
    buffer_wf b \<and> writable_len b = Inr w \<and>
    (\<forall>i n. \<exists>bytes. fd i n = Some bytes \<and> n \<le> length bytes) \<longrightarrow> False", OF _ assms])
  fix f :: "read_fd \<Rightarrow> nat \<Rightarrow> sgs_buffer \<Rightarrow> size_t \<Rightarrow> size_t \<Rightarrow> (fault + int \<times> sgs_buffer) option"
  fix fd i b tot w y
  assume IH: "\<And>fd i b tot w y. f fd i b tot w = Some y \<Longrightarrow>
    buffer_wf b \<and> writable_len b = Inr w \<and>
    (\<forall>i n. \<exists>bytes. fd i n = Some bytes \<and> n \<le> length bytes) \<longrightarrow> False"
  assume body: "(if 0 < w then
        (case tailpos b of
           Inl e \<Rightarrow> Some (Inl e)
         | Inr t \<Rightarrow>
            (case sys_read (fd i) (buf b) (unat t) (unat w) of
               Inl e \<Rightarrow> Some (Inl e)
             | Inr (result, buf') \<Rightarrow>
                 if result = - 1 then Some (Inr (- 1, b\<lparr>buf := buf'\<rparr>))
                 else if result = 0 then Some (Inr (0, b\<lparr>buf := buf'\<rparr>))
                 else
                   let total'' = tot + result;
                       buffer' = b\<lparr>size := size b + result, buf := buf'\<rparr>
                   in if result \<noteq> w then Some (Inr (int_of_size total'', buffer'))
                      else (case writable_len buffer' of
                              Inl e \<Rightarrow> Some (Inl e)
                            | Inr writable' \<Rightarrow> f fd (Suc i) buffer' total'' writable')))
      else Some (Inr (int_of_size tot, b))) = Some y"
  show "buffer_wf b \<and> writable_len b = Inr w \<and>
    (\<forall>i n. \<exists>bytes. fd i n = Some bytes \<and> n \<le> length bytes) \<longrightarrow> False"
  proof
    assume a: "buffer_wf b \<and> writable_len b = Inr w \<and>
      (\<forall>i n. \<exists>bytes. fd i n = Some bytes \<and> n \<le> length bytes)"
    then have wf: "buffer_wf b" and w: "writable_len b = Inr w" by simp_all
    from writable_len_wf[OF wf] w obtain t where t: "tailpos b = Inr t" by auto
    from a obtain bytes where fd: "fd i (unat w) = Some bytes" and full: "unat w \<le> length bytes"
      by blast
    let ?b' = "b\<lparr>size := size b + w,
        buf := take (unat t) (buf b) @ take (unat w) bytes @ drop (unat t + unat w) (buf b)\<rparr>"
    have wf': "buffer_wf ?b'" by (rule full_read_wf[OF wf w t full])
    from writable_len_wf[OF wf'] obtain w' where w': "writable_len ?b' = Inr w'" by auto
    from body have "f fd (Suc i) ?b' (tot + w) w' = Some y"
      using writable_len_bounds[OF wf w]
      by (simp add: t full_read[of b w t "fd i", OF wf w t fd full] w' Let_def)
    from IH[OF this] wf' w' a show False by simp
  qed
qed

lemma loop_never_returns:
  assumes "buffer_wf b" and "writable_len b = Inr w"
    and "\<forall>i n. \<exists>bytes. fd i n = Some bytes \<and> n \<le> length bytes"
  shows "read_from_fd_loop fd i b tot w = None"
proof (cases "read_from_fd_loop fd i b tot w")
  case None
  then show ?thesis .
next
  case (Some y)
  from loop_never_returns_aux[OF this] assms show ?thesis by simp
qed

lemma read_from_fd_never_returns:
  assumes "buffer_wf b"
    and "\<forall>i n. \<exists>bytes. fd i n = Some bytes \<and> n \<le> length bytes"
  shows "sgs_buffer_read_from_fd b fd = None"
proof -
  from writable_len_wf[OF assms(1)] obtain w where w: "writable_len b = Inr w" by auto
  show ?thesis
    by (simp add: sgs_buffer_read_from_fd_def w loop_never_returns[OF assms(1) w assms(2)])
qed

lemma partial_read_wf:
  assumes wf: "buffer_wf b" and w: "writable_len b = Inr w" and t: "tailpos b = Inr t"
    and less: "length bytes < unat w"
  shows "buffer_wf (b\<lparr>size := size b + of_nat (length bytes),
        buf := take (unat t) (buf b) @ bytes @ drop (unat t + length bytes) (buf b)\<rparr>)"
proof -
  from writable_len_wf[OF wf] w t have fit: "unat t + unat w \<le> length (buf b)" by auto
  have "length (take (unat t) (buf b) @ bytes @ drop (unat t + length bytes) (buf b))
      = length (buf b)"
    using fit less by simp
  then show ?thesis using wf by (simp add: buffer_wf_def)
qed

lemma loop_returns:
  assumes "\<forall>m>0. fd (i + n) m = None \<or> (\<exists>bytes. fd (i + n) m = Some bytes \<and> length bytes < m)"
    and "buffer_wf b" and "writable_len b = Inr w"
  shows "\<exists>r b'. read_from_fd_loop fd i b tot w = Some (Inr (r, b')) \<and> buffer_wf b'"
  using assms
proof (induction n arbitrary: i b tot w)
  case 0
  from writable_len_wf[OF "0.prems"(2)] "0.prems"(3) obtain t where t: "tailpos b = Inr t"
    and pos: "0 < unat w" by auto
  from "0.prems"(1) pos
  have "fd i (unat w) = None \<or> (\<exists>bytes. fd i (unat w) = Some bytes \<and> length bytes < unat w)"
    by simp
  then show ?case
  proof
    assume "fd i (unat w) = None"
    from loop_error[where fd = fd and i = i, OF "0.prems"(2,3) this] "0.prems"(2) show ?thesis by blast
  next
    assume "\<exists>bytes. fd i (unat w) = Some bytes \<and> length bytes < unat w"
    then obtain bytes where fd: "fd i (unat w) = Some bytes" and less: "length bytes < unat w"
      by blast
    show ?thesis
    proof (cases "bytes = []")
      case True
      with fd have "fd i (unat w) = Some []" by simp
      from loop_eof[where fd = fd and i = i, OF "0.prems"(2,3) this] "0.prems"(2) show ?thesis by blast
    next
      case False
      from loop_partial[where fd = fd and i = i, OF "0.prems"(2,3) t fd False less]
        partial_read_wf[OF "0.prems"(2,3) t less]
      show ?thesis by blast
    qed
  qed
next
  case (Suc n)
  from writable_len_wf[OF Suc.prems(2)] Suc.prems(3) obtain t where t: "tailpos b = Inr t"
    and pos: "0 < unat w" by auto
  show ?case
  proof (cases "fd i (unat w)")
    case None
    from loop_error[where fd = fd and i = i, OF Suc.prems(2,3) this] Suc.prems(2) show ?thesis by blast
  next
    case (Some bytes)
    show ?thesis
    proof (cases "unat w \<le> length bytes")
      case True
      let ?b' = "b\<lparr>size := size b + w,
        buf := take (unat t) (buf b) @ take (unat w) bytes @ drop (unat t + unat w) (buf b)\<rparr>"
      have wf': "buffer_wf ?b'" by (rule full_read_wf[OF Suc.prems(2,3) t True])
      from writable_len_wf[OF wf'] obtain w' where w': "writable_len ?b' = Inr w'" by auto
      have step: "read_from_fd_loop fd i b tot w = read_from_fd_loop fd (Suc i) ?b' (tot + w) w'"
        by (rule loop_full[where fd = fd and i = i, OF Suc.prems(2,3) t Some True w'])
      from Suc.prems(1)
      have "\<forall>m>0. fd (Suc i + n) m = None \<or> (\<exists>bytes. fd (Suc i + n) m = Some bytes \<and> length bytes < m)"
        by simp
      from Suc.IH[where i = "Suc i" and tot = "tot + w", OF this wf' w'] step show ?thesis by simp
    next
      case False
      then have less: "length bytes < unat w" by simp
      show ?thesis
      proof (cases "bytes = []")
        case True
        with Some have "fd i (unat w) = Some []" by simp
        from loop_eof[where fd = fd and i = i, OF Suc.prems(2,3) this] Suc.prems(2) show ?thesis by blast
      next
        case False
        from loop_partial[where fd = fd and i = i, OF Suc.prems(2,3) t Some False less]
          partial_read_wf[OF Suc.prems(2,3) t less]
        show ?thesis by blast
      qed
    qed
  qed
qed

lemma read_from_fd_returns_when_stream_stops:
  assumes "buffer_wf b"
    and "\<forall>m>0. fd n m = None \<or> (\<exists>bytes. fd n m = Some bytes \<and> length bytes < m)"
  shows "\<exists>r b'. sgs_buffer_read_from_fd b fd = Some (Inr (r, b')) \<and> buffer_wf b'"
proof -
  from writable_len_wf[OF assms(1)] obtain w where w: "writable_len b = Inr w" by auto
  from assms(2) have "\<forall>m>0. fd (0 + n) m = None \<or> (\<exists>bytes. fd (0 + n) m = Some bytes \<and> length bytes < m)"
    by simp
  from loop_returns[where fd = fd and i = 0 and n = n and tot = 0, OF this assms(1) w] show ?thesis
    by (simp add: sgs_buffer_read_from_fd_def w)
qed

text \<open>
  The loop gets to its \<open>i\<close>-th test exactly as \<open>loop_head\<close> says: the call is then the
  loop entered there, the buffer is well-formed and the running total is the growth of
  the size.
\<close>

lemma loop_head_SucE:
  assumes "loop_head fd b0 (Suc i) = Some (b', tot', w')"
  obtains b tot w t buf' where "loop_head fd b0 i = Some (b, tot, w)" and "0 < w"
    and "tailpos b = Inr t" and "sys_read (fd i) (buf b) (unat t) (unat w) = Inr (w, buf')"
    and "w \<noteq> - 1" and "w \<noteq> 0"
    and "b' = b\<lparr>size := size b + w, buf := buf'\<rparr>" and "tot' = tot + w"
    and "writable_len b' = Inr w'"
  using assms
  by (auto split: option.splits sum.splits if_splits prod.splits)

lemma loop_head_call:
  "loop_head fd b0 i = Some (b, tot, w) \<Longrightarrow>
   sgs_buffer_read_from_fd b0 fd = read_from_fd_loop fd i b tot w"
proof (induction i arbitrary: b tot w)
  case 0
  then show ?case
    by (auto simp add: sgs_buffer_read_from_fd_def split: sum.splits)
next
  case (Suc i)
  from Suc.prems obtain b1 tot1 w1 t buf' where h: "loop_head fd b0 i = Some (b1, tot1, w1)"
    and pos: "0 < w1" and t: "tailpos b1 = Inr t"
    and rd: "sys_read (fd i) (buf b1) (unat t) (unat w1) = Inr (w1, buf')"
    and n1: "w1 \<noteq> - 1" and n0: "w1 \<noteq> 0"
    and b: "b = b1\<lparr>size := size b1 + w1, buf := buf'\<rparr>" and tot: "tot = tot1 + w1"
    and w: "writable_len b = Inr w"
    by (rule loop_head_SucE)
  have "read_from_fd_loop fd i b1 tot1 w1 = read_from_fd_loop fd (Suc i) b tot w"
    using pos n1 n0 w unfolding b tot
    by (subst read_from_fd_loop.simps) (simp add: t rd Let_def)
  with Suc.IH[OF h] show ?case by simp
qed

lemma sys_read_length:
  "sys_read answer mem off n = Inr (r, mem') \<Longrightarrow> length mem' = length mem"
  by (auto simp add: sys_read_def split: if_splits option.splits)

lemma loop_head_wf:
  "buffer_wf b0 \<Longrightarrow> loop_head fd b0 i = Some (b, tot, w) \<Longrightarrow>
   buffer_wf b \<and> writable_len b = Inr w \<and> tot = size b - size b0"
proof (induction i arbitrary: b tot w)
  case 0
  then show ?case by (auto split: sum.splits)
next
  case (Suc i)
  from Suc.prems(2) obtain b1 tot1 w1 t buf' where h: "loop_head fd b0 i = Some (b1, tot1, w1)"
    and "0 < w1" and "tailpos b1 = Inr t"
    and rd: "sys_read (fd i) (buf b1) (unat t) (unat w1) = Inr (w1, buf')"
    and "w1 \<noteq> - 1" and "w1 \<noteq> 0"
    and b: "b = b1\<lparr>size := size b1 + w1, buf := buf'\<rparr>" and tot: "tot = tot1 + w1"
    and w: "writable_len b = Inr w"
    by (rule loop_head_SucE)
  from Suc.IH[OF Suc.prems(1) h] have wf1: "buffer_wf b1" and tot1: "tot1 = size b1 - size b0"
    by simp_all
  have "buffer_wf b" using wf1 sys_read_length[OF rd] by (simp add: b buffer_wf_def)
  moreover have "tot = size b - size b0" by (simp add: tot tot1 b)
  ultimately show ?case using w by simp
qed

lemma loop_head_full:
  assumes wf: "buffer_wf b" and w: "writable_len b = Inr w" and t: "tailpos b = Inr t"
    and head: "loop_head fd b0 i = Some (b, tot, w)"
    and fd: "fd i (unat w) = Some bytes" and full: "unat w \<le> length bytes"
  shows "\<exists>w'. loop_head fd b0 (Suc i) =
    Some (b\<lparr>size := size b + w,
            buf := take (unat t) (buf b) @ take (unat w) bytes @ drop (unat t + unat w) (buf b)\<rparr>,
          tot + w, w')"
proof -
  let ?b' = "b\<lparr>size := size b + w,
      buf := take (unat t) (buf b) @ take (unat w) bytes @ drop (unat t + unat w) (buf b)\<rparr>"
  have wf': "buffer_wf ?b'" by (rule full_read_wf[OF wf w t full])
  from writable_len_wf[OF wf'] obtain w' where w': "writable_len ?b' = Inr w'" by auto
  have "loop_head fd b0 (Suc i) = Some (?b', tot + w, w')"
    using writable_len_bounds[OF wf w]
    by (simp add: head t full_read[of b w t "fd i", OF wf w t fd full] w')
  then show ?thesis by blast
qed

lemma loop_head_stops:
  assumes wf: "buffer_wf b0"
  shows "loop_head fd b0 j = None \<Longrightarrow>
    \<exists>r b'. sgs_buffer_read_from_fd b0 fd = Some (Inr (r, b')) \<and> buffer_wf b'"
proof (induction j)
  case 0
  from writable_len_wf[OF wf] obtain w where "writable_len b0 = Inr w" by auto
  with 0 show ?case by simp
next
  case (Suc j)
  show ?case
  proof (cases "loop_head fd b0 j")
    case None
    then show ?thesis by (rule Suc.IH)
  next
    case (Some st)
    then obtain b tot w where head: "loop_head fd b0 j = Some (b, tot, w)"
      by (cases st) auto
    from loop_head_wf[OF wf head] have wfb: "buffer_wf b" and w: "writable_len b = Inr w"
      by simp_all
    from writable_len_wf[OF wfb] w obtain t where t: "tailpos b = Inr t" by auto
    note call = loop_head_call[OF head]
    show ?thesis
    proof (cases "fd j (unat w)")
      case None
      from loop_error[where fd = fd and i = j, OF wfb w None] call wfb show ?thesis by simp
    next
      case (Some bytes)
      show ?thesis
      proof (cases "unat w \<le> length bytes")
        case True
        from loop_head_full[OF wfb w t head Some True] Suc.prems show ?thesis by simp
      next
        case False
        then have less: "length bytes < unat w" by simp
        show ?thesis
        proof (cases "bytes = []")
          case True
          with Some have "fd j (unat w) = Some []" by simp
          from loop_eof[where fd = fd and i = j, OF wfb w this] call wfb show ?thesis by simp
        next
          case False
          from loop_partial[where fd = fd and i = j, OF wfb w t Some False less]
            partial_read_wf[OF wfb w t less] call
          show ?thesis by simp
        qed
      qed
    qed
  qed
qed

text \<open>
  Claim C4, as amended. On a well-formed buffer the loop of
  \<^verbatim>\<open>sgs_buffer_read_from_fd\<close> goes round only while \<^verbatim>\<open>read\<close> delivers all the bytes
  requested. When it has got to its \<open>i\<close>-th test, with the running total \<open>tot\<close>, which
  is the growth of the size so far, and \<open>w > 0\<close> bytes writable, the call returns at
  this very iteration if the descriptor answers with an error (\<open>- 1\<close>), with the end of
  the stream (0) or with fewer bytes than requested (the running total with them,
  converted to \<^verbatim>\<open>int\<close>: that total itself when it is below \<open>2 ^ 31\<close>), and the loop
  gets to the next test if it answers with all the bytes requested. So the call
  returns whenever some iteration is not reached.
\<close>

theorem read_from_fd_stops:
  assumes wf: "buffer_wf b0" and head: "loop_head fd b0 i = Some (b, tot, w)"
    and t: "tailpos b = Inr t"
  shows "buffer_wf b \<and> writable_len b = Inr w \<and> 0 < w \<and> tot = size b - size b0
    \<and> (fd i (unat w) = None \<longrightarrow> sgs_buffer_read_from_fd b0 fd = Some (Inr (- 1, b)))
    \<and> (fd i (unat w) = Some [] \<longrightarrow> sgs_buffer_read_from_fd b0 fd = Some (Inr (0, b)))
    \<and> (\<forall>bytes. fd i (unat w) = Some bytes \<and> bytes \<noteq> [] \<and> length bytes < unat w \<longrightarrow>
          sgs_buffer_read_from_fd b0 fd =
            Some (Inr (int_of_size (tot + of_nat (length bytes)),
              b\<lparr>size := size b + of_nat (length bytes),
                buf := take (unat t) (buf b) @ bytes @ drop (unat t + length bytes) (buf b)\<rparr>))
          \<and> (unat tot + length bytes < 2 ^ 31 \<longrightarrow>
                int_of_size (tot + of_nat (length bytes)) = int (unat tot + length bytes)))
    \<and> (\<forall>bytes. fd i (unat w) = Some bytes \<and> unat w \<le> length bytes \<longrightarrow>
          (\<exists>w'. loop_head fd b0 (Suc i) =
            Some (b\<lparr>size := size b + w,
                    buf := take (unat t) (buf b) @ take (unat w) bytes @ drop (unat t + unat w) (buf b)\<rparr>,
                  tot + w, w')))
    \<and> ((\<exists>j. loop_head fd b0 j = None) \<longrightarrow>
          (\<exists>r b'. sgs_buffer_read_from_fd b0 fd = Some (Inr (r, b')) \<and> buffer_wf b'))"
proof -
  from loop_head_wf[OF wf head] have wfb: "buffer_wf b" and w: "writable_len b = Inr w"
    and tot: "tot = size b - size b0" by simp_all
  note call = loop_head_call[OF head]
  have pos: "0 < w" by (rule writable_len_bounds(3)[OF wfb w])
  have err: "fd i (unat w) = None \<longrightarrow> sgs_buffer_read_from_fd b0 fd = Some (Inr (- 1, b))"
    using loop_error[where fd = fd and i = i, OF wfb w] call by simp
  have eof: "fd i (unat w) = Some [] \<longrightarrow> sgs_buffer_read_from_fd b0 fd = Some (Inr (0, b))"
    using loop_eof[where fd = fd and i = i, OF wfb w] call by simp
  have part: "\<forall>bytes. fd i (unat w) = Some bytes \<and> bytes \<noteq> [] \<and> length bytes < unat w \<longrightarrow>
      sgs_buffer_read_from_fd b0 fd =
        Some (Inr (int_of_size (tot + of_nat (length bytes)),
          b\<lparr>size := size b + of_nat (length bytes),
            buf := take (unat t) (buf b) @ bytes @ drop (unat t + length bytes) (buf b)\<rparr>))
      \<and> (unat tot + length bytes < 2 ^ 31 \<longrightarrow>
            int_of_size (tot + of_nat (length bytes)) = int (unat tot + length bytes))"
    using loop_partial[where fd = fd and i = i and tot = tot, OF wfb w t] call
      running_total_value[of tot]
    by simp
  have full: "\<forall>bytes. fd i (unat w) = Some bytes \<and> unat w \<le> length bytes \<longrightarrow>
      (\<exists>w'. loop_head fd b0 (Suc i) =
        Some (b\<lparr>size := size b + w,
                buf := take (unat t) (buf b) @ take (unat w) bytes @ drop (unat t + unat w) (buf b)\<rparr>,
              tot + w, w'))"
    using loop_head_full[OF wfb w t head] by blast
  have stop: "(\<exists>j. loop_head fd b0 j = None) \<longrightarrow>
      (\<exists>r b'. sgs_buffer_read_from_fd b0 fd = Some (Inr (r, b')) \<and> buffer_wf b')"
    using loop_head_stops[OF wf] by blast
  show ?thesis
    by (rule conjI[OF wfb conjI[OF w conjI[OF pos conjI[OF tot
        conjI[OF err conjI[OF eof conjI[OF part conjI[OF full stop]]]]]]]])
qed

theorem read_from_fd_stops_witness:
  "sgs_buffer_read_from_fd \<lparr>capacity = 8, position = 0, size = 0, buf = [0, 0, 0, 0, 0, 0, 0, 0]\<rparr>
      three_then_eof
     = Some (Inr (3, \<lparr>capacity = 8, position = 0, size = 3, buf = [10, 11, 12, 0, 0, 0, 0, 0]\<rparr>))
   \<and> loop_head all_then_one \<lparr>capacity = 8, position = 3, size = 2, buf = [0, 0, 0, 7, 8, 0, 0, 0]\<rparr>
        (Suc 0)
     = Some (\<lparr>capacity = 8, position = 3, size = 5, buf = [0, 0, 0, 7, 8, 1, 1, 1]\<rparr>, 3, 3)
   \<and> sgs_buffer_read_from_fd \<lparr>capacity = 8, position = 3, size = 2, buf = [0, 0, 0, 7, 8, 0, 0, 0]\<rparr>
      all_then_one
     = Some (Inr (4, \<lparr>capacity = 8, position = 3, size = 6, buf = [2, 0, 0, 7, 8, 1, 1, 1]\<rparr>))"
proof -
  let ?f = "\<lparr>capacity = 8, position = 0, size = 0, buf = [0, 0, 0, 0, 0, 0, 0, 0]\<rparr>"
  let ?b = "\<lparr>capacity = 8, position = 3, size = 2, buf = [0, 0, 0, 7, 8, 0, 0, 0]\<rparr>"
  let ?b' = "\<lparr>capacity = 8, position = 3, size = 5, buf = [0, 0, 0, 7, 8, 1, 1, 1]\<rparr>"
  have wff: "buffer_wf ?f" and wfb: "buffer_wf ?b" by (simp_all add: buffer_wf_def)
  have hf: "loop_head three_then_eof ?f 0 = Some (?f, 0, 8)"
    by (simp add: writable_len_def tailpos_def size_mod_def fbind_def)
  have tf: "tailpos ?f = Inr 0" by (simp add: tailpos_def size_mod_def)
  have r3: "replicate 3 (1 :: uint8_t) = [1, 1, 1]" by (simp add: numeral_eq_Suc)
  have hb: "loop_head all_then_one ?b (Suc 0) = Some (?b', 3, 3)"
    by (simp add: writable_len_def tailpos_def size_mod_def fbind_def sys_read_def
        all_then_one_def r3)
  have tb: "tailpos ?b' = Inr 0" by (simp add: tailpos_def size_mod_def)
  from read_from_fd_stops [OF wff hf tf]
  have one: "sgs_buffer_read_from_fd ?f three_then_eof
      = Some (Inr (3, \<lparr>capacity = 8, position = 0, size = 3, buf = [10, 11, 12, 0, 0, 0, 0, 0]\<rparr>))"
    by (simp add: three_then_eof_def)
  from read_from_fd_stops [OF wfb hb tb]
  have two: "sgs_buffer_read_from_fd ?b all_then_one
      = Some (Inr (4, \<lparr>capacity = 8, position = 3, size = 6, buf = [2, 0, 0, 7, 8, 1, 1, 1]\<rparr>))"
    by (simp add: all_then_one_def)
  from one hb two show ?thesis by simp
qed

text \<open>
  The claim as it was stated fails in two ways. After a \<^verbatim>\<open>read\<close> that delivers the
  three bytes requested, an error of the descriptor makes the call return \<open>- 1\<close>, not
  the running total 3. And against a descriptor that always delivers as many bytes as
  are requested, the call on a fresh buffer of capacity 8 never returns: when the size
  reaches the capacity, \<^verbatim>\<open>writable_len\<close> is 8, not 0.
\<close>

theorem read_from_fd_loop_claim_fails:
  "sgs_buffer_read_from_fd \<lparr>capacity = 8, position = 3, size = 2, buf = [0, 0, 0, 7, 8, 0, 0, 0]\<rparr>
      three_then_error
     = Some (Inr (- 1, \<lparr>capacity = 8, position = 3, size = 5, buf = [0, 0, 0, 7, 8, 10, 11, 12]\<rparr>))
   \<and> sgs_buffer_create True (Some [0, 0, 0, 0, 0, 0, 0, 0]) 8
      = Some \<lparr>capacity = 8, position = 0, size = 0, buf = [0, 0, 0, 0, 0, 0, 0, 0]\<rparr>
   \<and> sgs_buffer_read_from_fd \<lparr>capacity = 8, position = 0, size = 0, buf = [0, 0, 0, 0, 0, 0, 0, 0]\<rparr>
      always_all = None"
proof -
  have "buffer_wf \<lparr>capacity = 8, position = 0, size = 0, buf = [0, 0, 0, 0, 0, 0, 0, 0]\<rparr>"
    by (simp add: buffer_wf_def)
  moreover have "\<forall>i n. \<exists>bytes. always_all i n = Some bytes \<and> n \<le> length bytes"
    by (simp add: always_all_def)
  ultimately have never: "sgs_buffer_read_from_fd
      \<lparr>capacity = 8, position = 0, size = 0, buf = [0, 0, 0, 0, 0, 0, 0, 0]\<rparr> always_all = None"
    by (rule read_from_fd_never_returns)
  have err: "sgs_buffer_read_from_fd
      \<lparr>capacity = 8, position = 3, size = 2, buf = [0, 0, 0, 7, 8, 0, 0, 0]\<rparr> three_then_error
     = Some (Inr (- 1, \<lparr>capacity = 8, position = 3, size = 5, buf = [0, 0, 0, 7, 8, 10, 11, 12]\<rparr>))"
    by (simp add: sgs_buffer_read_from_fd_def writable_len_def tailpos_def size_mod_def fbind_def
        read_from_fd_loop.simps sys_read_def three_then_error_def)
  show ?thesis using never err by (simp add: sgs_buffer_create_def)
qed

section \<open>Wraparound\<close>

lemma wrap_cursor_facts:
  fixes c k :: size_t
  assumes k0: "0 < k" and kc: "k \<le> c"
  shows "unat (c - k) = unat c - unat k" and "c - k < c" and "c \<noteq> 0"
    and "0 < unat k" and "unat k \<le> unat c" and "(c - k) mod c = c - k"
proof -
  show j0: "0 < unat k" using k0 by (simp add: word_less_nat_alt)
  show jn: "unat k \<le> unat c" using kc by (simp add: word_le_nat_alt)
  show sub: "unat (c - k) = unat c - unat k" using kc by (simp add: unat_sub)
  show lt: "c - k < c" using sub j0 jn by (simp add: word_less_nat_alt)
  show "c \<noteq> 0" using k0 kc by auto
  show "(c - k) mod c = c - k" using lt by (simp add: mod_word_less)
qed

lemma first_write:
  fixes c k :: size_t
  assumes k0: "0 < k" and kc: "k \<le> c"
    and mem: "length mem = unat c" and d1: "length d1 = unat (c - k)"
  shows "sgs_buffer_write \<lparr>capacity = c, position = 0, size = 0, buf = mem\<rparr> d1 (c - k)
    = Inr (0, None, \<lparr>capacity = c, position = 0, size = c - k, buf = d1 @ drop (unat (c - k)) mem\<rparr>)"
proof -
  note f = wrap_cursor_facts[OF k0 kc]
  have w: "writable_len \<lparr>capacity = c, position = 0, size = 0, buf = mem\<rparr> = Inr c"
    and t: "tailpos \<lparr>capacity = c, position = 0, size = 0, buf = mem\<rparr> = Inr 0"
    using f(3) by (simp_all add: writable_len_def tailpos_def size_mod_def fbind_Inr)
  have le: "c - k \<le> c" using f(2) by simp
  have m: "memcpy mem 0 d1 0 (unat (c - k)) = Inr (d1 @ drop (unat (c - k)) mem)"
    using mem d1 f(1) by (simp add: memcpy_in_bounds)
  show ?thesis
    using le by (simp add: sgs_buffer_write_def sgs_buffer_remaining_capacity_def w t m fbind_Inr)
qed

lemma first_read:
  fixes c k :: size_t
  assumes k0: "0 < k" and kc: "k \<le> c"
    and mem: "length mem = unat c" and d1: "length d1 = unat (c - k)"
    and dst: "length dst = unat (c - k)"
  shows "sgs_buffer_read \<lparr>capacity = c, position = 0, size = c - k, buf = d1 @ drop (unat (c - k)) mem\<rparr>
      dst (c - k)
    = Inr (0, d1, \<lparr>capacity = c, position = c - k, size = 0, buf = d1 @ drop (unat (c - k)) mem\<rparr>)"
proof -
  note f = wrap_cursor_facts[OF k0 kc]
  let ?b = "\<lparr>capacity = c, position = 0, size = c - k, buf = d1 @ drop (unat (c - k)) mem\<rparr>"
  have r: "readable_len ?b = Inr (c - k)"
    using f(3) by (simp add: readable_len_def tailpos_def size_mod_def fbind_Inr)
  have m: "memcpy dst 0 (d1 @ drop (unat (c - k)) mem) 0 (unat (c - k)) = Inr d1"
    using d1 dst by (simp add: memcpy_in_bounds)
  have p: "sgs_buffer_peek ?b dst (c - k) = Inr (0, d1)"
    by (simp add: sgs_buffer_peek_def r m fbind_Inr)
  show ?thesis
    using f(3) by (simp add: sgs_buffer_read_def p fbind_Inr size_mod_def f(6))
qed

lemma second_writable:
  fixes c k :: size_t
  assumes k0: "0 < k" and kc: "k \<le> c"
  shows "tailpos \<lparr>capacity = c, position = c - k, size = 0, buf = bf\<rparr> = Inr (c - k)"
    and "writable_len \<lparr>capacity = c, position = c - k, size = 0, buf = bf\<rparr> = Inr k"
proof -
  note f = wrap_cursor_facts[OF k0 kc]
  show t: "tailpos \<lparr>capacity = c, position = c - k, size = 0, buf = bf\<rparr> = Inr (c - k)"
    using f(3) by (simp add: tailpos_def size_mod_def f(6))
  show "writable_len \<lparr>capacity = c, position = c - k, size = 0, buf = bf\<rparr> = Inr k"
    by (simp add: writable_len_def t fbind_Inr)
qed

lemma second_write:
  fixes c k :: size_t
  assumes k0: "0 < k" and kc: "k \<le> c"
    and bf: "length bf = unat c" and d2: "length d2 = unat c"
  shows "sgs_buffer_write \<lparr>capacity = c, position = c - k, size = 0, buf = bf\<rparr> d2 c
    = Inr (0, None, \<lparr>capacity = c, position = c - k, size = c,
        buf = drop (unat k) d2 @ take (unat k) d2\<rparr>)"
proof -
  note f = wrap_cursor_facts[OF k0 kc]
  note tw = second_writable[OF k0 kc, of bf]
  show ?thesis
  proof (cases "c \<le> k")
    case True
    then have kc': "k = c" using kc by simp
    have m: "memcpy bf 0 d2 0 (unat c) = Inr d2"
      using bf d2 by (simp add: memcpy_in_bounds)
    show ?thesis
      using tw True m by (simp add: sgs_buffer_write_def sgs_buffer_remaining_capacity_def fbind_Inr kc' d2)
  next
    case False
    have m1: "memcpy bf (unat (c - k)) d2 0 (unat k) = Inr (take (unat (c - k)) bf @ take (unat k) d2)"
      using bf d2 f(1,4,5) by (simp add: memcpy_in_bounds)
    have m2: "memcpy (take (unat (c - k)) bf @ take (unat k) d2) 0 d2 (unat k) (unat (c - k))
        = Inr (drop (unat k) d2 @ take (unat k) d2)"
      using bf d2 f(1,4,5) by (simp add: memcpy_in_bounds)
    show ?thesis
      using tw False m1 m2 by (simp add: sgs_buffer_write_def sgs_buffer_remaining_capacity_def fbind_Inr)
  qed
qed

lemma ring_order:
  assumes "length d2 = n" and "j \<le> n"
  shows "drop (n - j) (drop j d2 @ take j d2) @ take (n - j) (drop j d2 @ take j d2) = d2"
  using assms by simp

lemma read_back_unwrapped:
  fixes c :: size_t
  assumes c0: "c \<noteq> 0" and d2: "length d2 = unat c" and dst: "length dst = unat c"
  shows "sgs_buffer_read \<lparr>capacity = c, position = 0, size = c, buf = d2\<rparr> dst c
    = Inr (0, d2, \<lparr>capacity = c, position = 0, size = 0, buf = d2\<rparr>)"
proof -
  let ?b = "\<lparr>capacity = c, position = 0, size = c, buf = d2\<rparr>"
  have r: "readable_len ?b = Inr c"
    using c0 by (simp add: readable_len_def tailpos_def size_mod_def fbind_Inr)
  have m: "memcpy dst 0 d2 0 (unat c) = Inr d2"
    using d2 dst by (simp add: memcpy_in_bounds)
  have p: "sgs_buffer_peek ?b dst c = Inr (0, d2)"
    by (simp add: sgs_buffer_peek_def r m fbind_Inr)
  show ?thesis
    using c0 by (simp add: sgs_buffer_read_def p fbind_Inr size_mod_def)
qed


lemma read_back_head:
  fixes c k :: size_t
  assumes k0: "0 < k" and kc: "k \<le> c" and cb: "unat c \<le> 2 ^ 63"
    and d2: "length d2 = unat c" and dst: "length dst = unat k"
  shows "sgs_buffer_read
      \<lparr>capacity = c, position = c - k, size = c, buf = drop (unat k) d2 @ take (unat k) d2\<rparr> dst k
    = Inr (0, take (unat k) d2,
        \<lparr>capacity = c, position = 0, size = c - k, buf = drop (unat k) d2 @ take (unat k) d2\<rparr>)"
proof -
  note f = wrap_cursor_facts[OF k0 kc]
  let ?b = "\<lparr>capacity = c, position = c - k, size = c, buf = drop (unat k) d2 @ take (unat k) d2\<rparr>"
  have "unat (c - k) + unat c < 2 ^ 64" using f(1,4,5) cb by simp
  then have e: "unat (c - k + c) = unat (c - k) + unat c"
    using unat_add_lem[of "c - k" c] by simp
  have "unat ((c - k + c) mod c) = (unat (c - k) + unat c) mod unat c"
    by (simp only: unat_mod e)
  also have "\<dots> = unat (c - k) mod unat c"
    by (simp only: mod_add_self2)
  also have "\<dots> = unat (c - k)"
    using f(2) by (simp add: word_less_nat_alt)
  finally have tm: "(c - k + c) mod c = c - k" by (simp only: word_unat_eq_iff)
  have t: "tailpos ?b = Inr (c - k)"
    using f(3) tm by (simp add: tailpos_def size_mod_def)
  have r: "readable_len ?b = Inr c"
    by (simp add: readable_len_def t fbind_Inr)
  have m: "memcpy dst 0 (drop (unat k) d2 @ take (unat k) d2) (unat (c - k)) (unat k)
      = Inr (take (unat k) d2)"
    using d2 dst f(1,4,5) by (simp add: memcpy_in_bounds)
  have p: "sgs_buffer_peek ?b dst k = Inr (0, take (unat k) d2)"
    using kc by (simp add: sgs_buffer_peek_def r m fbind_Inr)
  show ?thesis
    using f(3) by (simp add: sgs_buffer_read_def p fbind_Inr size_mod_def)
qed

lemma read_back_rest:
  fixes c k :: size_t
  assumes k0: "0 < k" and kc: "k \<le> c"
    and d2: "length d2 = unat c" and dst: "length dst = unat (c - k)"
  shows "sgs_buffer_read
      \<lparr>capacity = c, position = 0, size = c - k, buf = drop (unat k) d2 @ take (unat k) d2\<rparr> dst (c - k)
    = Inr (0, drop (unat k) d2,
        \<lparr>capacity = c, position = c - k, size = 0, buf = drop (unat k) d2 @ take (unat k) d2\<rparr>)"
proof -
  note f = wrap_cursor_facts[OF k0 kc]
  let ?b = "\<lparr>capacity = c, position = 0, size = c - k, buf = drop (unat k) d2 @ take (unat k) d2\<rparr>"
  have r: "readable_len ?b = Inr (c - k)"
    using f(3) by (simp add: readable_len_def tailpos_def size_mod_def fbind_Inr)
  have m: "memcpy dst 0 (drop (unat k) d2 @ take (unat k) d2) 0 (unat (c - k)) = Inr (drop (unat k) d2)"
    using d2 dst f(1,4,5) by (simp add: memcpy_in_bounds)
  have p: "sgs_buffer_peek ?b dst (c - k) = Inr (0, drop (unat k) d2)"
    by (simp add: sgs_buffer_peek_def r m fbind_Inr)
  show ?thesis
    using f(3) by (simp add: sgs_buffer_read_def p fbind_Inr size_mod_def f(6))
qed

text \<open>
  Claim C5, as amended. For a capacity \<open>c\<close> of at most \<open>2 ^ 63\<close> and \<open>0 < k \<le> c\<close>, over
  any bytes: on a fresh buffer, writing \<open>c - k\<close> bytes and reading them back leaves the
  buffer empty at position \<open>c - k\<close> with \<open>k\<close> bytes writable before the end of the array,
  so that the write of \<open>c\<close> bytes splits when \<open>k < c\<close>, and only then; this write succeeds
  with size \<open>c\<close>, and the storage holds its bytes in ring order from the position:
  the first \<open>k\<close> at the end of the array, the others at its start. Reading \<open>k\<close> bytes and
  then \<open>c - k\<close> bytes returns them all in order, and so does, when \<open>k = c\<close>, reading \<open>c\<close>
  bytes at once.
\<close>

theorem wraparound_write:
  fixes c k :: size_t
  assumes k0: "0 < k" and kc: "k \<le> c" and cb: "unat c \<le> 2 ^ 63"
    and mem: "length mem = unat c"
    and d1: "length d1 = unat (c - k)" and dst1: "length dst1 = unat (c - k)"
    and d2: "length d2 = unat c" and dstk: "length dstk = unat k" and dstc: "length dstc = unat c"
  defines "b0 \<equiv> \<lparr>capacity = c, position = 0, size = 0, buf = mem\<rparr>"
    and "b1 \<equiv> \<lparr>capacity = c, position = 0, size = c - k, buf = d1 @ drop (unat (c - k)) mem\<rparr>"
    and "b2 \<equiv> \<lparr>capacity = c, position = c - k, size = 0, buf = d1 @ drop (unat (c - k)) mem\<rparr>"
    and "b3 \<equiv> \<lparr>capacity = c, position = c - k, size = c, buf = drop (unat k) d2 @ take (unat k) d2\<rparr>"
    and "b4 \<equiv> \<lparr>capacity = c, position = 0, size = c - k, buf = drop (unat k) d2 @ take (unat k) d2\<rparr>"
    and "b5 \<equiv> \<lparr>capacity = c, position = c - k, size = 0, buf = drop (unat k) d2 @ take (unat k) d2\<rparr>"
  shows "sgs_buffer_create True (Some mem) c = Some b0
    \<and> sgs_buffer_write b0 d1 (c - k) = Inr (0, None, b1)
    \<and> sgs_buffer_read b1 dst1 (c - k) = Inr (0, d1, b2)
    \<and> writable_len b2 = Inr k
    \<and> sgs_buffer_write b2 d2 c = Inr (0, None, b3)
    \<and> drop (unat (position b3)) (buf b3) @ take (unat (position b3)) (buf b3) = d2
    \<and> sgs_buffer_read b3 dstk k = Inr (0, take (unat k) d2, b4)
    \<and> sgs_buffer_read b4 dst1 (c - k) = Inr (0, drop (unat k) d2, b5)
    \<and> (k = c \<longrightarrow> sgs_buffer_read b3 dstc c = Inr (0, d2, b5))"
proof -
  note f = wrap_cursor_facts[OF k0 kc]
  have l1: "length (d1 @ drop (unat (c - k)) mem) = unat c"
    using mem d1 f(1,5) by simp
  have "drop (unat c - unat k) (drop (unat k) d2 @ take (unat k) d2)
      @ take (unat c - unat k) (drop (unat k) d2 @ take (unat k) d2) = d2"
    using d2 f(5) by (rule ring_order)
  then have ring: "drop (unat (position b3)) (buf b3) @ take (unat (position b3)) (buf b3) = d2"
    by (simp add: b3_def f(1))
  have last: "k = c \<longrightarrow> sgs_buffer_read b3 dstc c = Inr (0, d2, b5)"
    using read_back_unwrapped[OF f(3) d2 dstc] d2 by (simp add: b3_def b5_def)
  show ?thesis
    unfolding b0_def b1_def b2_def
    using first_write[OF k0 kc mem d1] first_read[OF k0 kc mem d1 dst1]
      second_writable(2)[OF k0 kc] second_write[OF k0 kc l1 d2] ring
      read_back_head[OF k0 kc cb d2 dstk] read_back_rest[OF k0 kc d2 dst1] last
    by (simp add: sgs_buffer_create_def b3_def b4_def b5_def)
qed

theorem wraparound_write_witness:
  "sgs_buffer_write \<lparr>capacity = 8, position = 3, size = 0, buf = bytes_of ''abc'' @ [0, 0, 0, 0, 0]\<rparr>
      (bytes_of ''ABCDEFGH'') 8
     = Inr (0, None, \<lparr>capacity = 8, position = 3, size = 8, buf = bytes_of ''FGHABCDE''\<rparr>)
   \<and> sgs_buffer_read \<lparr>capacity = 8, position = 3, size = 8, buf = bytes_of ''FGHABCDE''\<rparr>
      [0, 0, 0, 0, 0] 5
     = Inr (0, bytes_of ''ABCDE'', \<lparr>capacity = 8, position = 0, size = 3, buf = bytes_of ''FGHABCDE''\<rparr>)
   \<and> sgs_buffer_read \<lparr>capacity = 8, position = 0, size = 3, buf = bytes_of ''FGHABCDE''\<rparr>
      [0, 0, 0] 3
     = Inr (0, bytes_of ''FGH'', \<lparr>capacity = 8, position = 3, size = 0, buf = bytes_of ''FGHABCDE''\<rparr>)
   \<and> sgs_buffer_read \<lparr>capacity = 8, position = 0, size = 8, buf = bytes_of ''ABCDEFGH''\<rparr>
      [0, 0, 0, 0, 0, 0, 0, 0] 8
     = Inr (0, bytes_of ''ABCDEFGH'', \<lparr>capacity = 8, position = 0, size = 0, buf = bytes_of ''ABCDEFGH''\<rparr>)"
  using wraparound_write [where c = 8 and k = 5 and mem = "[0, 0, 0, 0, 0, 0, 0, 0]"
      and ?d1.0 = "bytes_of ''abc''" and ?dst1.0 = "[0, 0, 0]" and ?d2.0 = "bytes_of ''ABCDEFGH''"
      and dstk = "[0, 0, 0, 0, 0]" and dstc = "[0, 0, 0, 0, 0, 0, 0, 0]"]
    wraparound_write [where c = 8 and k = 8 and mem = "[0, 0, 0, 0, 0, 0, 0, 0]"
      and ?d1.0 = "[]" and ?dst1.0 = "[]" and ?d2.0 = "bytes_of ''ABCDEFGH''"
      and dstk = "[0, 0, 0, 0, 0, 0, 0, 0]" and dstc = "[0, 0, 0, 0, 0, 0, 0, 0]"]
  by (simp add: bytes_of_def)

text \<open>
  The claim as it was stated fails in two ways. With capacity 8 and \<open>k = 5\<close> the write
  of 8 bytes splits and succeeds, and the read of 8 bytes copies from offset 3 past
  the end of the storage. With \<open>k = 8\<close> the position stays 0, 8 bytes are writable
  before the end of the array and the write of 8 bytes is one copy, not a split one.
\<close>

theorem wraparound_claim_fails:
  "sgs_buffer_create True (Some [0, 0, 0, 0, 0, 0, 0, 0]) 8
     = Some \<lparr>capacity = 8, position = 0, size = 0, buf = [0, 0, 0, 0, 0, 0, 0, 0]\<rparr>
   \<and> sgs_buffer_write \<lparr>capacity = 8, position = 0, size = 0, buf = [0, 0, 0, 0, 0, 0, 0, 0]\<rparr>
      (bytes_of ''abc'') 3
     = Inr (0, None, \<lparr>capacity = 8, position = 0, size = 3, buf = bytes_of ''abc'' @ [0, 0, 0, 0, 0]\<rparr>)
   \<and> sgs_buffer_read \<lparr>capacity = 8, position = 0, size = 3, buf = bytes_of ''abc'' @ [0, 0, 0, 0, 0]\<rparr>
      [0, 0, 0] 3
     = Inr (0, bytes_of ''abc'', \<lparr>capacity = 8, position = 3, size = 0, buf = bytes_of ''abc'' @ [0, 0, 0, 0, 0]\<rparr>)
   \<and> sgs_buffer_write \<lparr>capacity = 8, position = 3, size = 0, buf = bytes_of ''abc'' @ [0, 0, 0, 0, 0]\<rparr>
      (bytes_of ''ABCDEFGH'') 8
     = Inr (0, None, \<lparr>capacity = 8, position = 3, size = 8, buf = bytes_of ''FGHABCDE''\<rparr>)
   \<and> sgs_buffer_read \<lparr>capacity = 8, position = 3, size = 8, buf = bytes_of ''FGHABCDE''\<rparr>
      [0, 0, 0, 0, 0, 0, 0, 0] 8
     = Inl OutOfBounds
   \<and> writable_len \<lparr>capacity = 8, position = 0, size = 0, buf = [0, 0, 0, 0, 0, 0, 0, 0]\<rparr> = Inr 8
   \<and> sgs_buffer_write \<lparr>capacity = 8, position = 0, size = 0, buf = [0, 0, 0, 0, 0, 0, 0, 0]\<rparr>
      (bytes_of ''ABCDEFGH'') 8
     = Inr (0, None, \<lparr>capacity = 8, position = 0, size = 8, buf = bytes_of ''ABCDEFGH''\<rparr>)"
  by (simp add: buffer_defs bytes_of_def)

end
